theory Spec2Isabelle
  imports Main "HOL-Library.Word"
begin

unbundle bit_operations_syntax

section \<open>The glf\_scheduler library: data model\<close>

text \<open>
  The library is compiled for one of two targets, chosen by the preprocessor
  (\<^verbatim>\<open>#if(defined(__ATtinyX5__))\<close>). The target fixes the range of identifiers that
  are treated as debounced digital pins and the size of the analog sample buffer.
\<close>

datatype platform = ATtinyX5 | Arduino

definition MAX_DIGITAL_PIN :: "platform \<Rightarrow> int" where
  "MAX_DIGITAL_PIN p = (case p of ATtinyX5 \<Rightarrow> 5 | Arduino \<Rightarrow> 13)"

definition MAX_ANALOG_PIN :: "platform \<Rightarrow> nat" where
  "MAX_ANALOG_PIN p = (case p of ATtinyX5 \<Rightarrow> 3 | Arduino \<Rightarrow> 5)"

definition MAX_SCHED :: nat where
  "MAX_SCHED = 10"

definition DEBOUNCE_THRESH_UP :: int where
  "DEBOUNCE_THRESH_UP = 15"

definition DEBOUNCE_THRESH_DOWN :: int where
  "DEBOUNCE_THRESH_DOWN = 5"

definition DEBOUNCE_THRESH_MAX :: "8 word" where
  "DEBOUNCE_THRESH_MAX = 20"

definition DEBOUNCE_THRESH_BOTTOM :: "8 word" where
  "DEBOUNCE_THRESH_BOTTOM = 0"

definition HIGH :: "8 word" where
  "HIGH = 1"

definition LOW :: "8 word" where
  "LOW = 0"

text \<open>
  The struct \<^verbatim>\<open>sched\<close> of the header. On the AVR targets \<^verbatim>\<open>unsigned char\<close> and
  \<^verbatim>\<open>char\<close> are 8 bits, \<^verbatim>\<open>unsigned int\<close> is 16 bits and \<^verbatim>\<open>unsigned long\<close> is
  32 bits. The field \<^verbatim>\<open>id\<close> is called \<open>sched_id\<close> here. The field \<^verbatim>\<open>debounce_ct\<close> is
  a signed \<^verbatim>\<open>char\<close>: its bits are kept in a word and its comparisons read it with
  \<open>sint\<close>.
\<close>

record sched =
  sched_id :: "8 word"
  laststate :: "8 word"
  debounce_ct :: "8 word"
  debounce_state :: "8 word"
  debounce_change :: "8 word"
  event_ct_up :: "16 word"
  event_ct_down :: "16 word"
  active :: "8 word"
  recurring :: "8 word"
  schedtime :: "32 word"
  schedms :: "32 word"

text \<open>
  The file-level statics. \<open>schedlist\<close> has \<open>MAX_SCHED + 1\<close> entries and
  \<open>sched_analoglist\<close> has \<open>MAX_ANALOG_PIN + 1\<close> entries. \<open>sched_count\<close> is a
  \<^verbatim>\<open>char\<close> that only ever holds a value between 0 and \<open>MAX_SCHED\<close>.
\<close>

record sched_state =
  schedlist :: "sched list"
  sched_analoglist :: "16 word list"
  sched_count :: nat
  sched_priorms :: "32 word"
  sched_num_analogs :: "8 word"
  sched_current_analog :: "8 word"
  sched_initialized :: "8 word"
  sched_ISR_installed :: "8 word"

definition zero_sched :: sched where
  "zero_sched = \<lparr> sched_id = 0, laststate = 0, debounce_ct = 0, debounce_state = 0,
     debounce_change = 0, event_ct_up = 0, event_ct_down = 0, active = 0, recurring = 0,
     schedtime = 0, schedms = 0 \<rparr>"

text \<open>The zero-initialised statics a program starts with.\<close>

definition startup_state :: "platform \<Rightarrow> sched_state" where
  "startup_state p = \<lparr> schedlist = replicate (MAX_SCHED + 1) zero_sched,
     sched_analoglist = replicate (MAX_ANALOG_PIN p + 1) 0,
     sched_count = 0, sched_priorms = 0, sched_num_analogs = 0,
     sched_current_analog = 0, sched_initialized = 0, sched_ISR_installed = 0 \<rparr>"

text \<open>The array bounds of the statics, and the range of \<open>sched_count\<close>.\<close>

definition wf_state :: "platform \<Rightarrow> sched_state \<Rightarrow> bool" where
  "wf_state p s = (length (schedlist s) = MAX_SCHED + 1
     \<and> length (sched_analoglist s) = MAX_ANALOG_PIN p + 1
     \<and> sched_count s \<le> MAX_SCHED)"

text \<open>An assignment \<^verbatim>\<open>schedlist[n].field = ...\<close>.\<close>

definition upd :: "nat \<Rightarrow> (sched \<Rightarrow> sched) \<Rightarrow> sched_state \<Rightarrow> sched_state" where
  "upd n f s = s\<lparr>schedlist := (schedlist s)[n := f (schedlist s ! n)]\<rparr>"

section \<open>Operations\<close>

subsection \<open>\<^verbatim>\<open>sched_list_init\<close>\<close>

text \<open>
  The first loop clears the entries \<open>0 .. MAX_SCHED - 1\<close> and leaves \<^verbatim>\<open>debounce_ct\<close>
  alone. The timer registers are hardware and are not part of the state; of the
  installation of the interrupt only the flag \<^verbatim>\<open>sched_ISR_installed\<close> is kept.
\<close>

definition clear_sched :: "sched \<Rightarrow> sched" where
  "clear_sched e = e\<lparr> sched_id := 0, laststate := 0, active := 0, recurring := 0,
     schedtime := 0, schedms := 0, event_ct_up := 0, event_ct_down := 0,
     debounce_change := 0, debounce_state := LOW \<rparr>"

definition sched_list_init :: "platform \<Rightarrow> 32 word \<Rightarrow> 8 word \<Rightarrow> sched_state \<Rightarrow> sched_state" where
  "sched_list_init p millis num_analogs_toscan s =
     (let s = s\<lparr>sched_initialized := 0\<rparr>;
          s = fold (\<lambda>i. upd i clear_sched) [0..<MAX_SCHED] s;
          num_analogs_toscan =
            (if unat num_analogs_toscan > MAX_ANALOG_PIN p + 1
             then of_nat (MAX_ANALOG_PIN p + 1) else num_analogs_toscan);
          s = s\<lparr>sched_num_analogs := num_analogs_toscan\<rparr>;
          s = s\<lparr>sched_analoglist :=
                 fold (\<lambda>i l. l[i := 0]) [0..<MAX_ANALOG_PIN p + 1] (sched_analoglist s)\<rparr>;
          s = s\<lparr>sched_current_analog := 0, sched_count := 0, sched_priorms := millis\<rparr>;
          s = (if sched_ISR_installed s = 0 then s\<lparr>sched_ISR_installed := 1\<rparr> else s)
      in s\<lparr>sched_initialized := 1\<rparr>)"

subsection \<open>The lookup loop\<close>

text \<open>
  Every public function starts with the same loop,
  \<^verbatim>\<open>for (i=0; i<sched_count; i++) if (ident == schedlist[i].id) pos = i;\<close>
  with \<^verbatim>\<open>pos\<close> starting at \<open>-1\<close>. \<^verbatim>\<open>ident\<close> is a signed \<^verbatim>\<open>char\<close> and
  \<^verbatim>\<open>id\<close> an \<^verbatim>\<open>unsigned char\<close>; both are promoted to \<^verbatim>\<open>int\<close> for the
  comparison, so a negative \<^verbatim>\<open>ident\<close> matches no entry.
\<close>

definition find_pos :: "8 word \<Rightarrow> sched_state \<Rightarrow> int" where
  "find_pos ident s =
     fold (\<lambda>i pos. if sint ident = uint (sched_id (schedlist s ! i)) then int i else pos)
       [0..<sched_count s] (- 1)"

text \<open>
  \<^verbatim>\<open>(schedlist[pos].id >= 0) && (schedlist[pos].id <= MAX_DIGITAL_PIN)\<close>: the entry is
  a monitored pin.
\<close>

definition is_pin :: "platform \<Rightarrow> 8 word \<Rightarrow> bool" where
  "is_pin p i = (uint i \<ge> 0 \<and> uint i \<le> MAX_DIGITAL_PIN p)"

subsection \<open>\<^verbatim>\<open>sched_event\<close> and \<^verbatim>\<open>sched_cancel\<close>\<close>

text \<open>
  \<open>timems\<close> is the value \<^verbatim>\<open>millis()\<close> returns and \<open>digitalRead\<close> the level of each
  pin at the time of the call. After the lookup loop the loop counter \<^verbatim>\<open>i\<close> equals
  \<^verbatim>\<open>sched_count\<close> as it was on entry; the snapshot of a monitored pin writes
  \<^verbatim>\<open>debounce_ct\<close> through \<^verbatim>\<open>pos\<close> and \<^verbatim>\<open>debounce_change\<close> and
  \<^verbatim>\<open>debounce_state\<close> through \<^verbatim>\<open>i\<close>, as the source does.
\<close>

definition sched_event ::
  "platform \<Rightarrow> 32 word \<Rightarrow> (8 word \<Rightarrow> bool) \<Rightarrow> 8 word \<Rightarrow> 8 word \<Rightarrow> 32 word \<Rightarrow> sched_state
     \<Rightarrow> 8 word \<times> sched_state" where
  "sched_event p timems digitalRead ident recur ms s =
     (let i = sched_count s;
          pos = find_pos ident s;
          (pos, s) = (if pos < 0 \<and> sched_count s < MAX_SCHED
                      then (int (sched_count s), s\<lparr>sched_count := sched_count s + 1\<rparr>)
                      else (pos, s))
      in if pos \<ge> 0 then
           (let n = nat pos;
                s = upd n (\<lambda>e. e\<lparr> sched_id := ident, schedtime := ms + timems, schedms := ms,
                                  recurring := recur, event_ct_up := 0, event_ct_down := 0,
                                  active := 1 \<rparr>) s;
                s = (if recur = 0 \<and> ms = 0 then upd n (\<lambda>e. e\<lparr>active := 0\<rparr>) s else s);
                s = (if is_pin p (sched_id (schedlist s ! n)) then
                       (let s = upd n (\<lambda>e. e\<lparr>laststate :=
                                  (if digitalRead (sched_id e) then HIGH else LOW)\<rparr>) s
                        in if laststate (schedlist s ! n) \<noteq> 0
                           then upd i (\<lambda>e. e\<lparr>debounce_change := 0, debounce_state := HIGH\<rparr>)
                                  (upd n (\<lambda>e. e\<lparr>debounce_ct := DEBOUNCE_THRESH_MAX\<rparr>) s)
                           else upd i (\<lambda>e. e\<lparr>debounce_change := 0, debounce_state := LOW\<rparr>)
                                  (upd n (\<lambda>e. e\<lparr>debounce_ct := DEBOUNCE_THRESH_BOTTOM\<rparr>) s))
                     else s)
            in (1, s))
         else (0, s))"

definition sched_cancel ::
  "platform \<Rightarrow> 32 word \<Rightarrow> (8 word \<Rightarrow> bool) \<Rightarrow> 8 word \<Rightarrow> sched_state \<Rightarrow> 8 word \<times> sched_state" where
  "sched_cancel p timems digitalRead ident s = sched_event p timems digitalRead ident 0 0 s"

subsection \<open>\<^verbatim>\<open>sched_check0\<close> and \<^verbatim>\<open>sched_check\<close>\<close>

text \<open>
  The body of the \<^verbatim>\<open>if\<close> for a monitored pin in \<^verbatim>\<open>sched_check0\<close>, on the entry it
  works on: \<open>debounce\<close> is the local flag and \<open>lvl\<close> what \<^verbatim>\<open>digitalRead\<close> returned.
\<close>

definition debounce_step :: "bool \<Rightarrow> bool \<Rightarrow> sched \<Rightarrow> sched" where
  "debounce_step debounce lvl e =
     (let e = e\<lparr>laststate := (if lvl then HIGH else LOW)\<rparr>
      in if laststate e \<noteq> 0 then
           (let e = (if \<not> debounce then e\<lparr>debounce_ct := DEBOUNCE_THRESH_MAX\<rparr>
                     else e\<lparr>debounce_ct := debounce_ct e + 1\<rparr>)
            in if sint (debounce_ct e) > DEBOUNCE_THRESH_UP then
                 (let e = e\<lparr>debounce_ct := DEBOUNCE_THRESH_MAX\<rparr>;
                      e = (if debounce_state e = 0
                           then e\<lparr>debounce_change := debounce_change e + 1,
                                  event_ct_up := event_ct_up e + 1\<rparr>
                           else e)
                  in e\<lparr>debounce_state := HIGH\<rparr>)
               else e)
         else
           (let e = (if \<not> debounce then e\<lparr>debounce_ct := DEBOUNCE_THRESH_BOTTOM\<rparr>
                     else e\<lparr>debounce_ct := debounce_ct e - 1\<rparr>)
            in if sint (debounce_ct e) < DEBOUNCE_THRESH_DOWN then
                 (let e = e\<lparr>debounce_ct := DEBOUNCE_THRESH_BOTTOM\<rparr>;
                      e = (if debounce_state e \<noteq> 0
                           then e\<lparr>debounce_change := debounce_change e + 1,
                                  event_ct_down := event_ct_down e + 1\<rparr>
                           else e)
                  in e\<lparr>debounce_state := LOW\<rparr>)
               else e))"

definition sched_check0 ::
  "platform \<Rightarrow> 32 word \<Rightarrow> (8 word \<Rightarrow> bool) \<Rightarrow> int \<Rightarrow> sched_state \<Rightarrow> 8 word \<times> sched_state" where
  "sched_check0 p timems digitalRead pos s =
     (if pos < 0 \<or> pos \<ge> int (sched_count s) then (0, s)
      else
        (let n = nat pos in
         if active (schedlist s ! n) \<noteq> 0 then
           (if schedtime (schedlist s ! n) \<le> timems then
              (let (debounce, s) =
                     (if recurring (schedlist s ! n) \<noteq> 0 then
                        (let s = upd n (\<lambda>e. e\<lparr>schedtime := schedtime e + schedms e\<rparr>) s
                         in if schedms (schedlist s ! n) = 0
                            then (False, upd n (\<lambda>e. e\<lparr>schedtime := schedtime e + 1\<rparr>) s)
                            else (True, s))
                      else (True, upd n (\<lambda>e. e\<lparr>active := 0\<rparr>) s));
                   s = (if is_pin p (sched_id (schedlist s ! n))
                        then upd n (\<lambda>e. debounce_step debounce (digitalRead (sched_id e)) e) s
                        else s)
               in (1, s))
            else (0, s))
         else (0, s)))"

definition sched_check ::
  "platform \<Rightarrow> 32 word \<Rightarrow> (8 word \<Rightarrow> bool) \<Rightarrow> 8 word \<Rightarrow> sched_state \<Rightarrow> 8 word \<times> sched_state" where
  "sched_check p timems digitalRead ident s =
     (let pos = find_pos ident s
      in if pos < 0 then (0, s) else sched_check0 p timems digitalRead pos s)"

subsection \<open>\<^verbatim>\<open>sched_pin_test0\<close> and the pin queries\<close>

definition sched_pin_test0 :: "int \<Rightarrow> 8 word \<Rightarrow> 8 word \<Rightarrow> sched_state \<Rightarrow> 8 word \<times> sched_state" where
  "sched_pin_test0 pos level delta s =
     (if pos < 0 \<or> pos \<ge> int (sched_count s) then (0, s)
      else
        (let n = nat pos in
         if active (schedlist s ! n) \<noteq> 0 then
           (let changes = debounce_change (schedlist s ! n);
                s = upd n (\<lambda>e. e\<lparr>debounce_change := 0\<rparr>) s
            in if delta = 0 then (debounce_state (schedlist s ! n), s)
               else if changes \<noteq> 0 then
                 (if level \<noteq> 0
                  then (if debounce_state (schedlist s ! n) \<noteq> 0 then (1, s) else (0, s))
                  else (if debounce_state (schedlist s ! n) = 0 then (1, s) else (0, s)))
               else (0, s))
         else (0, s)))"

definition sched_pin_gohigh :: "8 word \<Rightarrow> sched_state \<Rightarrow> 8 word \<times> sched_state" where
  "sched_pin_gohigh ident s =
     (let pos = find_pos ident s in if pos < 0 then (0, s) else sched_pin_test0 pos 1 1 s)"

definition sched_pin_golow :: "8 word \<Rightarrow> sched_state \<Rightarrow> 8 word \<times> sched_state" where
  "sched_pin_golow ident s =
     (let pos = find_pos ident s in if pos < 0 then (0, s) else sched_pin_test0 pos 0 1 s)"

definition sched_pin_level :: "8 word \<Rightarrow> 8 word \<Rightarrow> sched_state \<Rightarrow> 8 word \<times> sched_state" where
  "sched_pin_level ident level s =
     (let pos = find_pos ident s in if pos < 0 then (0, s) else sched_pin_test0 pos level 0 s)"

subsection \<open>\<^verbatim>\<open>sched_analogread\<close>\<close>

text \<open>
  The buffer has \<open>MAX_ANALOG_PIN + 1\<close> elements; a read past its end is undefined in C
  and is the value \<open>None\<close> here.
\<close>

definition sched_analogread :: "8 word \<Rightarrow> sched_state \<Rightarrow> 16 word option" where
  "sched_analogread pin s =
     (if pin > sched_num_analogs s then Some 0
      else if unat pin < length (sched_analoglist s) then Some (sched_analoglist s ! unat pin)
      else None)"

subsection \<open>\<^verbatim>\<open>sched_pin_event_count\<close>\<close>

text \<open>
  The counters are \<^verbatim>\<open>volatile\<close> and the timer interrupt may run between any two
  accesses to them. An interrupt is a state transformer; the list \<open>irqs\<close> gives, for
  the successive gaps between two accesses, what the interrupt did there (the identity
  where none fired), and no interrupt fires once the list is used up.
\<close>

type_synonym irq = "sched_state \<Rightarrow> sched_state"

definition preempt :: "irq list \<Rightarrow> sched_state \<Rightarrow> irq list \<times> sched_state" where
  "preempt irqs s = (case irqs of [] \<Rightarrow> ([], s) | f # fs \<Rightarrow> (fs, f s))"

text \<open>
  \<^verbatim>\<open>do { hold = counter; val = hold; } while (hold != counter);\<close> with one gap
  between the read in the body and the read in the condition.
\<close>

fun stable_read ::
  "(sched_state \<Rightarrow> 16 word) \<Rightarrow> irq list \<Rightarrow> sched_state \<Rightarrow> 16 word \<times> irq list \<times> sched_state" where
  "stable_read rd [] s = (rd s, [], s)"
| "stable_read rd (f # fs) s =
     (let hold = rd s; s = f s
      in if hold \<noteq> rd s then stable_read rd fs s else (hold, fs, s))"

text \<open>
  Only one of the locals \<^verbatim>\<open>holdup\<close> and \<^verbatim>\<open>holddown\<close> is assigned before the reset
  block compares both; \<open>uninit\<close> is the indeterminate value of the other one. The gaps
  of the reset block are: before the comparison of the rising counter, between that
  comparison and the store, before the comparison of the falling counter, and between
  that comparison and the store.
\<close>

definition sched_pin_event_count_irq ::
  "irq list \<Rightarrow> 16 word \<Rightarrow> 8 word \<Rightarrow> 8 word \<Rightarrow> 8 word \<Rightarrow> sched_state \<Rightarrow> 16 word \<times> sched_state" where
  "sched_pin_event_count_irq irqs uninit ident level reset s =
     (let pos = find_pos ident s
      in if pos < 0 then (0, s)
         else
           (let n = nat pos;
                (hold, irqs, s) =
                  (if level \<noteq> 0 then stable_read (\<lambda>s. event_ct_up (schedlist s ! n)) irqs s
                   else stable_read (\<lambda>s. event_ct_down (schedlist s ! n)) irqs s);
                val = hold;
                holdup = (if level \<noteq> 0 then hold else uninit);
                holddown = (if level \<noteq> 0 then uninit else hold)
            in if reset \<noteq> 0 then
                 (let (irqs, s) = preempt irqs s;
                      up_moved = (event_ct_up (schedlist s ! n) \<noteq> holdup);
                      (irqs, s) = preempt irqs s;
                      s = upd n (\<lambda>e. e\<lparr>event_ct_up := (if up_moved then 1 else 0)\<rparr>) s;
                      (irqs, s) = preempt irqs s;
                      down_moved = (event_ct_down (schedlist s ! n) \<noteq> holddown);
                      (irqs, s) = preempt irqs s;
                      s = upd n (\<lambda>e. e\<lparr>event_ct_down := (if down_moved then 1 else 0)\<rparr>) s
                  in (val, s))
               else (val, s)))"

text \<open>The function when no interrupt fires during the call.\<close>

definition sched_pin_event_count ::
  "16 word \<Rightarrow> 8 word \<Rightarrow> 8 word \<Rightarrow> 8 word \<Rightarrow> sched_state \<Rightarrow> 16 word \<times> sched_state" where
  "sched_pin_event_count uninit ident level reset s =
     sched_pin_event_count_irq [] uninit ident level reset s"

subsection \<open>The interrupt: \<^verbatim>\<open>sched_background_int\<close> and the \<^verbatim>\<open>TIMER0_COMPB\<close> handler\<close>

text \<open>
  \<open>adcl\<close> and \<open>adch\<close> are the contents of the ADC data registers when the handler
  runs. The writes to \<^verbatim>\<open>ADMUX\<close> and \<^verbatim>\<open>ADCSRA\<close> start the next conversion in the
  hardware and leave the statics alone.
\<close>

definition sched_background_int ::
  "platform \<Rightarrow> 32 word \<Rightarrow> (8 word \<Rightarrow> bool) \<Rightarrow> 8 word \<Rightarrow> 8 word \<Rightarrow> sched_state \<Rightarrow> sched_state" where
  "sched_background_int p timems digitalRead adcl adch s =
     (let s = s\<lparr>sched_priorms := timems\<rparr>;
          s = (if sched_num_analogs s \<noteq> 0 then
                 (let alog_val = (push_bit 8 (ucast adch) OR ucast adcl :: 16 word);
                      s = s\<lparr>sched_analoglist :=
                             (sched_analoglist s)[unat (sched_current_analog s) := alog_val]\<rparr>;
                      s = s\<lparr>sched_current_analog := sched_current_analog s + 1\<rparr>
                  in if sched_current_analog s \<ge> sched_num_analogs s
                     then s\<lparr>sched_current_analog := 0\<rparr> else s)
               else s)
      in fold (\<lambda>i s. if is_pin p (sched_id (schedlist s ! i))
                      then snd (sched_check0 p timems digitalRead (int i) s) else s)
           [0..<sched_count s] s)"

definition TIMER0_COMPB_vect ::
  "platform \<Rightarrow> 32 word \<Rightarrow> (8 word \<Rightarrow> bool) \<Rightarrow> 8 word \<Rightarrow> 8 word \<Rightarrow> sched_state \<Rightarrow> sched_state" where
  "TIMER0_COMPB_vect p timems digitalRead adcl adch s =
     (if sched_initialized s \<noteq> 0 then sched_background_int p timems digitalRead adcl adch s
      else s)"

section \<open>Scenarios\<close>

text \<open>
  Concrete runs on the Arduino target, used to evaluate the functions: every pin reads
  the same level, the scheduler is initialised at tick 0 without analog scanning, pin 6
  is registered as a recurring watcher with period 0 while it reads LOW, and one
  interrupt at tick 1 sees it HIGH.
\<close>

definition pin_reads :: "bool \<Rightarrow> 8 word \<Rightarrow> bool" where
  "pin_reads lvl = (\<lambda>pin. lvl)"

definition scen_init :: sched_state where
  "scen_init = sched_list_init Arduino 0 0 (startup_state Arduino)"

definition scen_armed :: sched_state where
  "scen_armed = snd (sched_event Arduino 0 (pin_reads False) 6 1 0 scen_init)"

definition scen_rose :: sched_state where
  "scen_rose = TIMER0_COMPB_vect Arduino 1 (pin_reads True) 0 0 scen_armed"

text \<open>Ten manual timers, identifiers 20 to 29: the table is full.\<close>

definition scen_full :: sched_state where
  "scen_full =
     fold (\<lambda>k s. snd (sched_event Arduino 0 (pin_reads False) (of_nat k) 1 100 s)) [20..<30]
       scen_init"

text \<open>
  The entry \<^verbatim>\<open>sched_event\<close> writes when it succeeds: the one the lookup found, or
  the next free one.
\<close>

definition event_slot :: "8 word \<Rightarrow> sched_state \<Rightarrow> nat" where
  "event_slot ident s = (if find_pos ident s < 0 then sched_count s else nat (find_pos ident s))"

text \<open>A gap in which no interrupt fires, and the interrupt of tick 1 with every pin HIGH.\<close>

definition no_irq :: irq where
  "no_irq = (\<lambda>s. s)"

definition tick_high :: irq where
  "tick_high = TIMER0_COMPB_vect Arduino 1 (pin_reads True) 0 0"

text \<open>
  Pin 6 registered at tick 0 with period 1 while it reads LOW, registered again at tick
  5 while it reads HIGH, and the interrupt of tick 6.
\<close>

definition scen_pin_low :: sched_state where
  "scen_pin_low = snd (sched_event Arduino 0 (pin_reads False) 6 1 1 scen_init)"

definition scen_rearmed :: sched_state where
  "scen_rearmed = snd (sched_event Arduino 5 (pin_reads True) 6 1 1 scen_pin_low)"

definition scen_rearmed_tick :: sched_state where
  "scen_rearmed_tick = TIMER0_COMPB_vect Arduino 6 (pin_reads True) 0 0 scen_rearmed"

text \<open>The manual timer 20, recurring with period 1000, armed at tick 0.\<close>

definition scen_timer :: sched_state where
  "scen_timer = snd (sched_event Arduino 0 (pin_reads False) 20 1 1000 scen_init)"

section \<open>The entry-wise effect of a check\<close>

text \<open>
  \<^verbatim>\<open>sched_check0\<close> reads and writes one entry only. \<open>expire_entry\<close> is what its
  ``Time is up!'' branch does to that entry, \<open>check_entry\<close> what the whole function
  does to it, and \<open>tick_entry\<close> what one pass of the loop of
  \<^verbatim>\<open>sched_background_int\<close> does to an entry (lemmas \<open>sched_check0_entry\<close> and
  \<open>interrupt_schedlist\<close>).
\<close>

definition expire_entry :: "platform \<Rightarrow> (8 word \<Rightarrow> bool) \<Rightarrow> sched \<Rightarrow> sched" where
  "expire_entry p digitalRead e =
     (let (debounce, e) =
            (if recurring e \<noteq> 0 then
               (if schedms e = 0 then (False, e\<lparr>schedtime := schedtime e + schedms e + 1\<rparr>)
                else (True, e\<lparr>schedtime := schedtime e + schedms e\<rparr>))
             else (True, e\<lparr>active := 0\<rparr>))
      in if is_pin p (sched_id e) then debounce_step debounce (digitalRead (sched_id e)) e else e)"

definition check_entry :: "platform \<Rightarrow> 32 word \<Rightarrow> (8 word \<Rightarrow> bool) \<Rightarrow> sched \<Rightarrow> sched" where
  "check_entry p timems digitalRead e =
     (if active e \<noteq> 0 \<and> schedtime e \<le> timems then expire_entry p digitalRead e else e)"

definition tick_entry :: "platform \<Rightarrow> 32 word \<Rightarrow> (8 word \<Rightarrow> bool) \<Rightarrow> sched \<Rightarrow> sched" where
  "tick_entry p timems digitalRead e =
     (if is_pin p (sched_id e) then check_entry p timems digitalRead e else e)"

section \<open>Runs of the library\<close>

text \<open>
  A program is a sequence of calls of the public functions by the foreground loop, with
  the timer interrupt running between them. Each call carries what it reads from the
  environment: the tick counter \<^verbatim>\<open>millis()\<close>, the pin levels, the ADC data registers,
  and for \<^verbatim>\<open>sched_pin_event_count\<close> the indeterminate value of its unassigned local.
  Here no interrupt fires inside a call.
\<close>

datatype call =
    List_init "32 word" "8 word"
  | Event "32 word" "8 word \<Rightarrow> bool" "8 word" "8 word" "32 word"
  | Cancel "32 word" "8 word \<Rightarrow> bool" "8 word"
  | Check "32 word" "8 word \<Rightarrow> bool" "8 word"
  | Pin_gohigh "8 word"
  | Pin_golow "8 word"
  | Pin_level "8 word" "8 word"
  | Pin_event_count "16 word" "8 word" "8 word" "8 word"
  | Analogread "8 word"
  | Interrupt "32 word" "8 word \<Rightarrow> bool" "8 word" "8 word"

datatype outcome = Done | Ret8 "8 word" | Ret16 "16 word" | RetAnalog "16 word option"

fun exec :: "platform \<Rightarrow> call \<Rightarrow> sched_state \<Rightarrow> outcome \<times> sched_state" where
  "exec p (List_init millis k) s = (Done, sched_list_init p millis k s)"
| "exec p (Event t dr ident recur ms) s =
     (Ret8 (fst (sched_event p t dr ident recur ms s)), snd (sched_event p t dr ident recur ms s))"
| "exec p (Cancel t dr ident) s =
     (Ret8 (fst (sched_cancel p t dr ident s)), snd (sched_cancel p t dr ident s))"
| "exec p (Check t dr ident) s =
     (Ret8 (fst (sched_check p t dr ident s)), snd (sched_check p t dr ident s))"
| "exec p (Pin_gohigh ident) s =
     (Ret8 (fst (sched_pin_gohigh ident s)), snd (sched_pin_gohigh ident s))"
| "exec p (Pin_golow ident) s =
     (Ret8 (fst (sched_pin_golow ident s)), snd (sched_pin_golow ident s))"
| "exec p (Pin_level ident level) s =
     (Ret8 (fst (sched_pin_level ident level s)), snd (sched_pin_level ident level s))"
| "exec p (Pin_event_count uninit ident level reset) s =
     (Ret16 (fst (sched_pin_event_count uninit ident level reset s)),
      snd (sched_pin_event_count uninit ident level reset s))"
| "exec p (Analogread pin) s = (RetAnalog (sched_analogread pin s), s)"
| "exec p (Interrupt t dr adcl adch) s = (Done, TIMER0_COMPB_vect p t dr adcl adch s)"

fun run :: "platform \<Rightarrow> call list \<Rightarrow> sched_state \<Rightarrow> outcome list \<times> sched_state" where
  "run p [] s = ([], s)"
| "run p (c # cs) s =
     (fst (exec p c s) # fst (run p cs (snd (exec p c s))), snd (run p cs (snd (exec p c s))))"










fun arms :: "8 word \<Rightarrow> call \<Rightarrow> bool" where
  "arms ident (Event t dr i recur ms) = (i = ident \<and> \<not> (recur = 0 \<and> ms = 0))"
| "arms ident c = False"

fun cancels :: "8 word \<Rightarrow> call \<Rightarrow> bool" where
  "cancels ident (Cancel t dr i) = (i = ident)"
| "cancels ident c = False"

text \<open>
  One millisecond of a polling loop: the interrupt of the tick, then
  \<^verbatim>\<open>sched_check(ident)\<close> in the foreground at the same tick.
\<close>

fun poll_run ::
  "platform \<Rightarrow> (8 word \<Rightarrow> bool) \<Rightarrow> 8 word \<Rightarrow> 32 word list \<Rightarrow> sched_state
     \<Rightarrow> 8 word list \<times> sched_state" where
  "poll_run p dr ident [] s = ([], s)"
| "poll_run p dr ident (t # ts) s =
     (let s = TIMER0_COMPB_vect p t dr 0 0 s;
          (r, s) = sched_check p t dr ident s;
          (rs, s) = poll_run p dr ident ts s
      in (r # rs, s))"

section \<open>Auxiliary notions for the proofs\<close>

text \<open>
  What a successful \<^verbatim>\<open>sched_event\<close> does to the entry at \<^verbatim>\<open>pos\<close> and to the entry
  at the loop counter \<^verbatim>\<open>i\<close> (lemma \<open>sched_event_ok\<close>).
\<close>


definition arm_entry ::
  "platform \<Rightarrow> 32 word \<Rightarrow> (8 word \<Rightarrow> bool) \<Rightarrow> 8 word \<Rightarrow> 8 word \<Rightarrow> 32 word \<Rightarrow> sched \<Rightarrow> sched" where
  "arm_entry p timems digitalRead ident recur ms e =
     (let e = e\<lparr> sched_id := ident, schedtime := ms + timems, schedms := ms, recurring := recur,
                  event_ct_up := 0, event_ct_down := 0,
                  active := (if recur = 0 \<and> ms = 0 then 0 else 1) \<rparr>
      in if is_pin p ident
         then e\<lparr> laststate := (if digitalRead ident then HIGH else LOW),
                 debounce_ct := (if digitalRead ident then DEBOUNCE_THRESH_MAX
                                 else DEBOUNCE_THRESH_BOTTOM) \<rparr>
         else e)"

definition snap_entry :: "platform \<Rightarrow> (8 word \<Rightarrow> bool) \<Rightarrow> 8 word \<Rightarrow> sched \<Rightarrow> sched" where
  "snap_entry p digitalRead ident e =
     (if is_pin p ident
      then e\<lparr> debounce_change := 0, debounce_state := (if digitalRead ident then HIGH else LOW) \<rparr>
      else e)"






text \<open>
  A poll of \<open>ident\<close> answers false: the identifier is not registered, or its entry is
  inactive.
\<close>


definition idle :: "8 word \<Rightarrow> sched_state \<Rightarrow> bool" where
  "idle ident s =
     (find_pos ident s < 0 \<or> active (schedlist s ! nat (find_pos ident s)) = 0)"

text \<open>
  Entry \<open>n\<close> is the entry of \<open>ident\<close> in a table of \<open>k\<close> entries, as
  \<^verbatim>\<open>sched_cancel\<close> leaves it: inactive, with both counters at 0.
\<close>


definition cancelled :: "platform \<Rightarrow> 8 word \<Rightarrow> nat \<Rightarrow> nat \<Rightarrow> sched_state \<Rightarrow> bool" where
  "cancelled p ident n k s =
     (wf_state p s \<and> find_pos ident s = int n \<and> sched_count s = k
      \<and> active (schedlist s ! n) = 0
      \<and> event_ct_up (schedlist s ! n) = 0 \<and> event_ct_down (schedlist s ! n) = 0)"

text \<open>
  Two cancels of pin 6, and a later run that leaves pin 6 alone: an interrupt, an edge
  query, the arming of timer 20 and another interrupt.
\<close>


definition scen_cancels :: "call list" where
  "scen_cancels = [Cancel 2 (pin_reads True) 6, Cancel 3 (pin_reads True) 6]"

definition scen_later :: "call list" where
  "scen_later =
     [Interrupt 4 (pin_reads True) 0 0, Pin_gohigh 6, Event 5 (pin_reads False) 20 1 100,
      Interrupt 6 (pin_reads False) 0 0]"

text \<open>
  Entry \<open>n\<close> is the active, recurring entry of \<open>ident\<close> with period 1000, next due at
  tick \<open>D\<close>.
\<close>


definition timer_due :: "platform \<Rightarrow> 8 word \<Rightarrow> nat \<Rightarrow> nat \<Rightarrow> sched_state \<Rightarrow> bool" where
  "timer_due p ident n D s =
     (wf_state p s \<and> find_pos ident s = int n
      \<and> active (schedlist s ! n) \<noteq> 0 \<and> recurring (schedlist s ! n) \<noteq> 0
      \<and> schedms (schedlist s ! n) = 1000 \<and> schedtime (schedlist s ! n) = of_nat D
      \<and> D < 2 ^ 32)"

text \<open>
  On the ATtiny85 target the pins are 0 to 5, so 7 is a manual timer: the scheduler
  initialised at tick 0, then timer 7 armed recurring with period 1000, or timer 20
  armed once with period 1000. On the Arduino target 7 is a pin; \<open>scen_pin7\<close> arms it
  recurring with period 1000. \<open>sparse_polls\<close> polls 7 every 667 ticks.
\<close>


definition tiny_init :: sched_state where
  "tiny_init = sched_list_init ATtinyX5 0 0 (startup_state ATtinyX5)"

definition tiny_timer :: sched_state where
  "tiny_timer = snd (sched_event ATtinyX5 0 (pin_reads False) 7 1 1000 tiny_init)"

definition tiny_once :: sched_state where
  "tiny_once = snd (sched_event ATtinyX5 0 (pin_reads False) 20 0 1000 tiny_init)"

definition scen_pin7 :: sched_state where
  "scen_pin7 = snd (sched_event Arduino 0 (pin_reads False) 7 1 1000 scen_init)"

definition sparse_polls :: "call list" where
  "sparse_polls =
     [Check 667 (pin_reads False) 7, Check 1334 (pin_reads False) 7,
      Check 2001 (pin_reads False) 7, Check 2668 (pin_reads False) 7,
      Check 3335 (pin_reads False) 7]"

section \<open>Basic facts\<close>

subsection \<open>The lookup loop\<close>

lemma lookup_loop:
  "fold (\<lambda>i pos. if P i then int i else pos) [0..<n] (- 1) =
     (if \<exists>i<n. P i then int (GREATEST i. i < n \<and> P i) else - 1)"
proof (induction n)
  case 0
  then show ?case by simp
next
  case (Suc n)
  show ?case
  proof (cases "P n")
    case True
    have "(GREATEST i. i < Suc n \<and> P i) = n"
      by (rule Greatest_equality) (use True in auto)
    with True show ?thesis by auto
  next
    case False
    have eq: "\<And>i. (i < Suc n \<and> P i) = (i < n \<and> P i)"
      using False less_Suc_eq by auto
    show ?thesis using False Suc by (simp add: eq)
  qed
qed

lemma find_pos_cases:
  "(find_pos ident s = - 1
     \<and> (\<forall>i < sched_count s. sint ident \<noteq> uint (sched_id (schedlist s ! i))))
   \<or> (0 \<le> find_pos ident s \<and> find_pos ident s < int (sched_count s)
       \<and> sint ident = uint (sched_id (schedlist s ! nat (find_pos ident s))))"
proof -
  let ?P = "\<lambda>i. sint ident = uint (sched_id (schedlist s ! i))"
  let ?n = "sched_count s"
  have fp: "find_pos ident s = (if \<exists>i<?n. ?P i then int (GREATEST i. i < ?n \<and> ?P i) else - 1)"
    unfolding find_pos_def by (rule lookup_loop)
  show ?thesis
  proof (cases "\<exists>i<?n. ?P i")
    case True
    then obtain i where i: "i < ?n \<and> ?P i" by blast
    have "(GREATEST i. i < ?n \<and> ?P i) < ?n \<and> ?P (GREATEST i. i < ?n \<and> ?P i)"
      by (rule GreatestI_nat[where P="\<lambda>i. i < ?n \<and> ?P i" and b="?n", OF i]) simp
    with True fp show ?thesis by simp
  next
    case False
    with fp show ?thesis by auto
  qed
qed

lemma find_pos_absent:
  "(\<forall>i < sched_count s. uint (sched_id (schedlist s ! i)) \<noteq> sint ident)
     \<Longrightarrow> find_pos ident s = - 1"
proof (rule ccontr)
  assume a: "\<forall>i < sched_count s. uint (sched_id (schedlist s ! i)) \<noteq> sint ident"
    and "find_pos ident s \<noteq> - 1"
  with find_pos_cases[of ident s]
  have f: "0 \<le> find_pos ident s" "find_pos ident s < int (sched_count s)"
    "sint ident = uint (sched_id (schedlist s ! nat (find_pos ident s)))" by auto
  from f(1,2) have "nat (find_pos ident s) < sched_count s" by simp
  with a f(3) show False by auto
qed

lemma find_pos_found:
  "find_pos ident s = int n
     \<Longrightarrow> n < sched_count s \<and> sint ident = uint (sched_id (schedlist s ! n))"
  using find_pos_cases[of ident s] by auto

lemma find_pos_found_wf:
  "wf_state p s \<Longrightarrow> find_pos ident s = int n \<Longrightarrow> n < length (schedlist s)"
  using find_pos_found[of ident s n] by (simp add: wf_state_def)

subsection \<open>Assignments to one entry\<close>

lemma schedlist_upd [simp]:
  "schedlist (upd n f s) = (schedlist s)[n := f (schedlist s ! n)]"
  by (simp add: upd_def)

lemma others_upd [simp]:
  "sched_count (upd n f s) = sched_count s"
  "sched_analoglist (upd n f s) = sched_analoglist s"
  "sched_num_analogs (upd n f s) = sched_num_analogs s"
  "sched_current_analog (upd n f s) = sched_current_analog s"
  "sched_initialized (upd n f s) = sched_initialized s"
  "sched_priorms (upd n f s) = sched_priorms s"
  by (simp_all add: upd_def)

lemma wf_state_upd [simp]: "wf_state p (upd n f s) = wf_state p s"
  by (simp add: wf_state_def)

subsection \<open>The scenarios are well-formed\<close>

lemma wf_scen_full: "wf_state Arduino scen_full"
  by code_simp

lemma wf_scen_rose: "wf_state Arduino scen_rose"
  by code_simp

lemma sched_id_list_update:
  "(\<And>e. sched_id (f e) = sched_id e)
     \<Longrightarrow> sched_id ((xs[n := f (xs ! n)]) ! i) = sched_id (xs ! i)"
  by (cases "n < length xs") (auto simp: nth_list_update list_update_beyond)

lemma find_pos_cong:
  assumes "sched_count s' = sched_count s"
    and "\<And>i. i < sched_count s \<Longrightarrow> sched_id (schedlist s' ! i) = sched_id (schedlist s ! i)"
  shows "find_pos ident s' = find_pos ident s"
  unfolding find_pos_def using assms by (intro fold_cong) auto

lemma find_pos_upd:
  "(\<And>e. sched_id (f e) = sched_id e) \<Longrightarrow> find_pos ident (upd n f s) = find_pos ident s"
  by (rule find_pos_cong) (simp_all add: sched_id_list_update)

lemma find_pos_range: "find_pos ident s < int (sched_count s)" "- 1 \<le> find_pos ident s"
  using find_pos_cases[of ident s] by auto

lemma event_slot_bound:
  "wf_state p s \<Longrightarrow> event_slot ident s < length (schedlist s)"
  using find_pos_range[of ident s] by (auto simp: event_slot_def wf_state_def)

subsection \<open>What the debounce step leaves alone\<close>

lemma debounce_step_frame [simp]:
  "sched_id (debounce_step d l e) = sched_id e"
  "active (debounce_step d l e) = active e"
  "recurring (debounce_step d l e) = recurring e"
  "schedtime (debounce_step d l e) = schedtime e"
  "schedms (debounce_step d l e) = schedms e"
  by (simp_all add: debounce_step_def Let_def)

subsection \<open>Due times\<close>

lemma sched_event_timing:
  assumes "wf_state p s" and "fst (sched_event p timems dr ident recur ms s) = 1"
  shows "schedtime (schedlist (snd (sched_event p timems dr ident recur ms s))
           ! event_slot ident s) = timems + ms
       \<and> schedms (schedlist (snd (sched_event p timems dr ident recur ms s))
           ! event_slot ident s) = ms"
proof -
  have n: "event_slot ident s < length (schedlist s)" using assms(1) by (rule event_slot_bound)
  have i: "sched_count s < length (schedlist s)" using assms(1) by (simp add: wf_state_def)
  show ?thesis
  proof (cases "find_pos ident s < 0")
    case True
    with assms(2) have lt: "sched_count s < MAX_SCHED"
      by (simp add: sched_event_def Let_def split: if_splits)
    show ?thesis using True lt n i
      by (simp add: sched_event_def event_slot_def Let_def nth_list_update)
  next
    case False
    show ?thesis using False n i
      by (simp add: sched_event_def event_slot_def Let_def nth_list_update)
  qed
qed

lemma sched_check0_rearm:
  assumes "wf_state p s" and "n < sched_count s" and "recurring (schedlist s ! n) \<noteq> 0"
    and "fst (sched_check0 p timems dr (int n) s) = 1"
  shows "schedtime (schedlist (snd (sched_check0 p timems dr (int n) s)) ! n) =
           schedtime (schedlist s ! n) + schedms (schedlist s ! n)
             + (if schedms (schedlist s ! n) = 0 then 1 else 0)"
proof -
  have n: "n < length (schedlist s)" using assms(1,2) by (simp add: wf_state_def)
  have "active (schedlist s ! n) \<noteq> 0 \<and> schedtime (schedlist s ! n) \<le> timems"
    using assms(2,4) by (simp add: sched_check0_def Let_def split: if_splits)
  then show ?thesis using assms(2,3) n
    by (simp add: sched_check0_def Let_def)
qed

lemma wf_scen_timer: "wf_state Arduino scen_timer"
  by code_simp

subsection \<open>One check, entry-wise\<close>

lemma upd_same: "upd n (\<lambda>e. e) s = s"
  by (simp add: upd_def)

lemma upd_upd: "upd n f (upd n g s) = upd n (\<lambda>e. f (g e)) s"
  by (cases "n < length (schedlist s)") (simp_all add: upd_def list_update_beyond)

lemma sched_check0_entry:
  assumes "n < sched_count s" and "n < length (schedlist s)"
  shows "sched_check0 p t dr (int n) s =
           ((if active (schedlist s ! n) \<noteq> 0 \<and> schedtime (schedlist s ! n) \<le> t then 1 else 0),
            upd n (check_entry p t dr) s)"
proof (cases "active (schedlist s ! n) \<noteq> 0 \<and> schedtime (schedlist s ! n) \<le> t")
  case False
  have "upd n (check_entry p t dr) s = s"
    using False by (auto simp: upd_def check_entry_def)
  then show ?thesis using False assms by (auto simp: sched_check0_def Let_def)
next
  case True
  have "snd (sched_check0 p t dr (int n) s) = upd n (check_entry p t dr) s"
    using True assms
    by (simp add: sched_check0_def Let_def check_entry_def expire_entry_def upd_def)
  moreover have "fst (sched_check0 p t dr (int n) s) = 1"
    using True assms by (simp add: sched_check0_def Let_def split_def)
  ultimately show ?thesis using True by (simp add: prod_eq_iff)
qed

lemma expire_entry_frame [simp]:
  "sched_id (expire_entry p dr e) = sched_id e"
  "recurring (expire_entry p dr e) = recurring e"
  "schedms (expire_entry p dr e) = schedms e"
  by (simp_all add: expire_entry_def Let_def split_def)

lemma check_entry_frame [simp]:
  "sched_id (check_entry p t dr e) = sched_id e"
  "recurring (check_entry p t dr e) = recurring e"
  "schedms (check_entry p t dr e) = schedms e"
  by (simp_all add: check_entry_def)

lemma tick_entry_frame [simp]:
  "sched_id (tick_entry p t dr e) = sched_id e"
  "recurring (tick_entry p t dr e) = recurring e"
  "schedms (tick_entry p t dr e) = schedms e"
  by (simp_all add: tick_entry_def)

lemma check_entry_inactive: "active e = 0 \<Longrightarrow> check_entry p t dr e = e"
  by (simp add: check_entry_def)

lemma tick_entry_inactive: "active e = 0 \<Longrightarrow> tick_entry p t dr e = e"
  by (simp add: tick_entry_def check_entry_inactive)

lemma tick_entry_manual: "\<not> is_pin p (sched_id e) \<Longrightarrow> tick_entry p t dr e = e"
  by (simp add: tick_entry_def)

subsection \<open>The loop of the interrupt\<close>

lemma map_take_step:
  assumes "k < length xs"
  shows "(map G (take k xs) @ drop k xs)[k := G (xs ! k)]
           = map G (take (Suc k) xs) @ drop (Suc k) xs"
proof -
  have "drop k xs = xs ! k # drop (Suc k) xs" using assms by (simp add: Cons_nth_drop_Suc)
  moreover have "length (map G (take k xs)) = k" using assms by simp
  ultimately show ?thesis using assms
    by (simp add: list_update_append take_Suc_conv_app_nth)
qed

lemma map_take_nth:
  "k < length xs \<Longrightarrow> (map G (take k xs) @ drop k xs) ! k = xs ! k"
  by (simp add: nth_append)

lemma map_take_entry:
  "n < length xs \<Longrightarrow>
     (map G (take k xs) @ drop k xs) ! n = (if n < k then G (xs ! n) else xs ! n)"
  by (auto simp: nth_append min_def)

lemma interrupt_loop:
  assumes "k \<le> sched_count s" and "sched_count s \<le> length (schedlist s)"
  shows "fold (\<lambda>i s. if is_pin p (sched_id (schedlist s ! i))
                      then snd (sched_check0 p t dr (int i) s) else s) [0..<k] s
         = s\<lparr>schedlist := map (tick_entry p t dr) (take k (schedlist s)) @ drop k (schedlist s)\<rparr>"
  using assms
proof (induction k)
  case 0
  then show ?case by simp
next
  case (Suc k)
  let ?xs = "schedlist s"
  let ?s = "s\<lparr>schedlist := map (tick_entry p t dr) (take k ?xs) @ drop k ?xs\<rparr>"
  have k: "k < length ?xs" "k < sched_count s" using Suc.prems by simp_all
  have nth: "schedlist ?s ! k = ?xs ! k" using k(1) by (simp add: map_take_nth)
  have chk: "snd (sched_check0 p t dr (int k) ?s) = upd k (check_entry p t dr) ?s"
    using k by (subst sched_check0_entry) simp_all
  have "fold (\<lambda>i s. if is_pin p (sched_id (schedlist s ! i))
                      then snd (sched_check0 p t dr (int i) s) else s) [0..<Suc k] s
        = (if is_pin p (sched_id (schedlist ?s ! k))
           then snd (sched_check0 p t dr (int k) ?s) else ?s)"
    using Suc by simp
  also have "\<dots> = ?s\<lparr>schedlist := (schedlist ?s)[k := tick_entry p t dr (?xs ! k)]\<rparr>"
  proof -
    have "(schedlist ?s)[k := ?xs ! k] = schedlist ?s"
      by (subst nth[symmetric]) (rule list_update_id)
    then show ?thesis using nth chk by (simp add: tick_entry_def upd_def)
  qed
  also have "\<dots> = s\<lparr>schedlist := map (tick_entry p t dr) (take (Suc k) ?xs) @ drop (Suc k) ?xs\<rparr>"
    using map_take_step[OF k(1), of "tick_entry p t dr"] by simp
  finally show ?case .
qed

lemma interrupt_schedlist:
  assumes "sched_count s \<le> length (schedlist s)"
  shows "schedlist (sched_background_int p t dr al ah s)
           = map (tick_entry p t dr) (take (sched_count s) (schedlist s))
               @ drop (sched_count s) (schedlist s)"
    and "sched_count (sched_background_int p t dr al ah s) = sched_count s"
    and "sched_initialized (sched_background_int p t dr al ah s) = sched_initialized s"
    and "length (sched_analoglist (sched_background_int p t dr al ah s))
           = length (sched_analoglist s)"
  using assms by (simp_all add: sched_background_int_def Let_def interrupt_loop)

lemma interrupt_entry:
  assumes "wf_state p s" and "n < length (schedlist s)"
  shows "schedlist (sched_background_int p t dr al ah s) ! n
           = (if n < sched_count s then tick_entry p t dr (schedlist s ! n) else schedlist s ! n)"
proof -
  have c: "sched_count s \<le> length (schedlist s)" using assms(1) by (simp add: wf_state_def)
  show ?thesis using assms(2) by (simp add: interrupt_schedlist(1)[OF c] map_take_entry)
qed

lemma interrupt_wf:
  assumes "wf_state p s"
  shows "wf_state p (sched_background_int p t dr al ah s)"
proof -
  have c: "sched_count s \<le> length (schedlist s)" using assms by (simp add: wf_state_def)
  show ?thesis using assms c by (simp add: wf_state_def interrupt_schedlist[OF c])
qed

subsection \<open>Identifiers: signed against unsigned\<close>

lemma sint_nonneg_uint: "0 \<le> sint (a :: 8 word) \<Longrightarrow> sint a = uint a"
proof -
  assume h: "0 \<le> sint a"
  have "sint a < 2 ^ (LENGTH(8) - 1)" by (rule sint_lt)
  then have "sint a < 2 ^ 8" by simp
  with h have "take_bit 8 (sint a) = sint a" by (simp add: take_bit_int_eq_self)
  moreover have "uint a = take_bit LENGTH(8) (sint a)" by (rule uint_sint)
  ultimately show ?thesis by simp
qed

lemma same_id: "sint (a :: 8 word) = uint (b :: 8 word) \<Longrightarrow> b = a"
proof -
  assume h: "sint a = uint b"
  have "0 \<le> sint a" using h by simp
  then have "sint a = uint a" by (rule sint_nonneg_uint)
  with h have "uint b = uint a" by simp
  then show "b = a" by (simp add: word_uint_eq_iff)
qed


subsection \<open>The watcher with period 0\<close>


lemma interrupt_find_pos:
  assumes "wf_state p s"
  shows "find_pos ident (sched_background_int p t dr al ah s) = find_pos ident s"
proof (rule find_pos_cong)
  have c: "sched_count s \<le> length (schedlist s)" using assms by (simp add: wf_state_def)
  show "sched_count (sched_background_int p t dr al ah s) = sched_count s"
    by (rule interrupt_schedlist(2)[OF c])
  fix i assume "i < sched_count s"
  then show "sched_id (schedlist (sched_background_int p t dr al ah s) ! i)
               = sched_id (schedlist s ! i)"
    using c by (simp add: interrupt_entry[OF assms])
qed

lemma found_id:
  "find_pos ident s = int n \<Longrightarrow> sched_id (schedlist s ! n) = ident"
  using find_pos_found[of ident s n] by (simp add: same_id)



lemma sched_pin_test0_entry:
  assumes "m < sched_count s" and "m < length (schedlist s)"
  shows "snd (sched_pin_test0 (int m) level delta s)
           = (if active (schedlist s ! m) \<noteq> 0
              then upd m (\<lambda>e. e\<lparr>debounce_change := 0\<rparr>) s else s)"
    and "fst (sched_pin_test0 (int m) level delta s)
           = (if active (schedlist s ! m) \<noteq> 0 then
                (if delta = 0 then debounce_state (schedlist s ! m)
                 else if debounce_change (schedlist s ! m) \<noteq> 0
                         \<and> (level \<noteq> 0) = (debounce_state (schedlist s ! m) \<noteq> 0)
                      then 1 else 0)
              else 0)"
  using assms by (auto simp: sched_pin_test0_def Let_def)

text \<open>The three pin queries are the lookup followed by \<open>sched_pin_test0\<close>.\<close>

lemma pin_query_unfold:
  "sched_pin_gohigh ident s
     = (if find_pos ident s < 0 then (0, s) else sched_pin_test0 (find_pos ident s) 1 1 s)"
  "sched_pin_golow ident s
     = (if find_pos ident s < 0 then (0, s) else sched_pin_test0 (find_pos ident s) 0 1 s)"
  "sched_pin_level ident level s
     = (if find_pos ident s < 0 then (0, s) else sched_pin_test0 (find_pos ident s) level 0 s)"
  by (simp_all add: sched_pin_gohigh_def sched_pin_golow_def sched_pin_level_def Let_def)

lemma upd_entry:
  "m < length (schedlist s) \<Longrightarrow>
     schedlist (upd m f s) ! n = (if n = m then f (schedlist s ! n) else schedlist s ! n)"
  by (auto simp: nth_list_update)


text \<open>What a pin query on any identifier does to entry \<open>n\<close>.\<close>

lemma test0_effect:
  assumes "wf_state p s" and "0 \<le> pos" and "pos = find_pos i s"
  shows "snd (sched_pin_test0 pos level delta s) = s
       \<or> snd (sched_pin_test0 pos level delta s)
            = upd (nat pos) (\<lambda>e. e\<lparr>debounce_change := 0\<rparr>) s"
proof -
  have m: "nat pos < sched_count s" using find_pos_range(1)[of i s] assms(2,3) by simp
  then have ml: "nat pos < length (schedlist s)" using assms(1) by (simp add: wf_state_def)
  show ?thesis using sched_pin_test0_entry(1)[OF m ml, of level delta] assms(2) by auto
qed

lemma query_effect:
  assumes "wf_state p s"
    and "q = sched_pin_gohigh i s \<or> q = sched_pin_golow i s \<or> q = sched_pin_level i level s"
  shows "snd q = s \<or> (\<exists>m < length (schedlist s). snd q = upd m (\<lambda>e. e\<lparr>debounce_change := 0\<rparr>) s)"
proof (cases "find_pos i s < 0")
  case True
  then show ?thesis using assms(2) by (auto simp: pin_query_unfold)
next
  case False
  then have p0: "0 \<le> find_pos i s" by simp
  have "nat (find_pos i s) < sched_count s" using find_pos_range(1)[of i s] p0 by simp
  then have m: "nat (find_pos i s) < length (schedlist s)"
    using assms(1) by (simp add: wf_state_def)
  from assms(2) False obtain level' delta where
    q: "q = sched_pin_test0 (find_pos i s) level' delta s"
    by (auto simp: pin_query_unfold)
  show ?thesis using test0_effect[OF assms(1) p0 refl, of level' delta] m unfolding q by blast
qed











subsection \<open>What \<^verbatim>\<open>sched_event\<close> does\<close>

lemma sched_event_fails:
  "find_pos ident s < 0 \<Longrightarrow> \<not> sched_count s < MAX_SCHED
     \<Longrightarrow> sched_event p t dr ident recur ms s = (0, s)"
  by (simp add: sched_event_def Let_def)

lemma sched_event_ok:
  assumes "wf_state p s" and "0 \<le> find_pos ident s \<or> sched_count s < MAX_SCHED"
  shows "sched_event p t dr ident recur ms s =
           (1, upd (sched_count s) (snap_entry p dr ident)
                 (upd (event_slot ident s) (arm_entry p t dr ident recur ms)
                    (s\<lparr>sched_count := (if find_pos ident s < 0 then Suc (sched_count s)
                                        else sched_count s)\<rparr>)))"
proof -
  have n: "event_slot ident s < length (schedlist s)" using assms(1) by (rule event_slot_bound)
  have i: "sched_count s < length (schedlist s)" using assms(1) by (simp add: wf_state_def)
  show ?thesis
  proof (cases "find_pos ident s < 0")
    case True
    with assms(2) have lt: "sched_count s < MAX_SCHED" by simp
    show ?thesis using True lt n i
      by (simp add: sched_event_def event_slot_def Let_def arm_entry_def snap_entry_def upd_def
          HIGH_def LOW_def)
  next
    case False
    show ?thesis using False n i
      by (simp add: sched_event_def event_slot_def Let_def arm_entry_def snap_entry_def upd_def
          HIGH_def LOW_def list_update_swap)
  qed
qed

lemma arm_entry_fields [simp]:
  "sched_id (arm_entry p t dr ident recur ms e) = ident"
  "schedtime (arm_entry p t dr ident recur ms e) = ms + t"
  "schedms (arm_entry p t dr ident recur ms e) = ms"
  "recurring (arm_entry p t dr ident recur ms e) = recur"
  "event_ct_up (arm_entry p t dr ident recur ms e) = 0"
  "event_ct_down (arm_entry p t dr ident recur ms e) = 0"
  "active (arm_entry p t dr ident recur ms e) = (if recur = 0 \<and> ms = 0 then 0 else 1)"
  "debounce_state (arm_entry p t dr ident recur ms e) = debounce_state e"
  "debounce_change (arm_entry p t dr ident recur ms e) = debounce_change e"
  by (simp_all add: arm_entry_def Let_def)

lemma snap_entry_fields [simp]:
  "sched_id (snap_entry p dr ident e) = sched_id e"
  "schedtime (snap_entry p dr ident e) = schedtime e"
  "schedms (snap_entry p dr ident e) = schedms e"
  "recurring (snap_entry p dr ident e) = recurring e"
  "event_ct_up (snap_entry p dr ident e) = event_ct_up e"
  "event_ct_down (snap_entry p dr ident e) = event_ct_down e"
  "active (snap_entry p dr ident e) = active e"
  by (simp_all add: snap_entry_def)

lemma find_pos_count_irrelevant:
  "find_pos ident (s\<lparr>sched_count := k\<rparr>) =
     fold (\<lambda>i pos. if sint ident = uint (sched_id (schedlist s ! i)) then int i else pos)
       [0..<k] (- 1)"
  by (simp add: find_pos_def)

text \<open>The lookup after one more entry has been appended.\<close>

lemma find_pos_extend:
  assumes "sched_count s' = Suc (sched_count s)"
    and "\<And>i. i < sched_count s \<Longrightarrow> sched_id (schedlist s' ! i) = sched_id (schedlist s ! i)"
  shows "find_pos ident s' =
           (if sint ident = uint (sched_id (schedlist s' ! sched_count s))
            then int (sched_count s) else find_pos ident s)"
proof -
  have "fold (\<lambda>i pos. if sint ident = uint (sched_id (schedlist s' ! i)) then int i else pos)
          [0..<sched_count s] (- 1)
        = fold (\<lambda>i pos. if sint ident = uint (sched_id (schedlist s ! i)) then int i else pos)
          [0..<sched_count s] (- 1)"
    using assms(2) by (intro fold_cong) auto
  then show ?thesis unfolding find_pos_def assms(1) by simp
qed

lemma sched_event_result:
  assumes wf: "wf_state p s" and ok: "fst (sched_event p t dr ident recur ms s) = 1"
  defines "s' \<equiv> snd (sched_event p t dr ident recur ms s)"
    and "n \<equiv> event_slot ident s"
  shows "wf_state p s'"
    and "sched_initialized s' = sched_initialized s"
    and "sched_count s' = (if find_pos ident s < 0 then Suc (sched_count s) else sched_count s)"
    and "sched_id (schedlist s' ! n) = ident"
    and "schedtime (schedlist s' ! n) = ms + t"
    and "schedms (schedlist s' ! n) = ms"
    and "recurring (schedlist s' ! n) = recur"
    and "event_ct_up (schedlist s' ! n) = 0"
    and "event_ct_down (schedlist s' ! n) = 0"
    and "active (schedlist s' ! n) = (if recur = 0 \<and> ms = 0 then 0 else 1)"
    and "\<And>k. k < sched_count s \<Longrightarrow> k \<noteq> n \<Longrightarrow> schedlist s' ! k = schedlist s ! k"
    and "\<And>k. k < sched_count s \<Longrightarrow> sched_id (schedlist s' ! k) = sched_id (schedlist s ! k)"
proof -
  have c: "0 \<le> find_pos ident s \<or> sched_count s < MAX_SCHED"
    using ok sched_event_fails[of ident s p t dr recur ms] by fastforce
  have n: "n < length (schedlist s)" unfolding n_def using wf by (rule event_slot_bound)
  have i: "sched_count s < length (schedlist s)" using wf by (simp add: wf_state_def)
  have s': "s' = upd (sched_count s) (snap_entry p dr ident)
                 (upd n (arm_entry p t dr ident recur ms)
                    (s\<lparr>sched_count := (if find_pos ident s < 0 then Suc (sched_count s)
                                        else sched_count s)\<rparr>))"
    unfolding s'_def n_def sched_event_ok[OF wf c] by simp
  have nle: "n \<le> sched_count s"
    using find_pos_range(1)[of ident s] by (auto simp: n_def event_slot_def)
  have e: "schedlist s' ! n = (if n = sched_count s
             then snap_entry p dr ident (arm_entry p t dr ident recur ms (schedlist s ! n))
             else arm_entry p t dr ident recur ms (schedlist s ! n))"
    unfolding s' using n i by (simp add: nth_list_update)
  show "wf_state p s'" unfolding s' using wf c by (auto simp: wf_state_def)
  show "sched_initialized s' = sched_initialized s" unfolding s' by simp
  show "sched_count s' = (if find_pos ident s < 0 then Suc (sched_count s) else sched_count s)"
    unfolding s' by simp
  show "sched_id (schedlist s' ! n) = ident" unfolding e by simp
  show "schedtime (schedlist s' ! n) = ms + t" unfolding e by simp
  show "schedms (schedlist s' ! n) = ms" unfolding e by simp
  show "recurring (schedlist s' ! n) = recur" unfolding e by simp
  show "event_ct_up (schedlist s' ! n) = 0" unfolding e by simp
  show "event_ct_down (schedlist s' ! n) = 0" unfolding e by simp
  show "active (schedlist s' ! n) = (if recur = 0 \<and> ms = 0 then 0 else 1)" unfolding e by simp
  show "\<And>k. k < sched_count s \<Longrightarrow> k \<noteq> n \<Longrightarrow> schedlist s' ! k = schedlist s ! k"
    unfolding s' using n i by (simp add: nth_list_update)
  show "\<And>k. k < sched_count s \<Longrightarrow> sched_id (schedlist s' ! k) = sched_id (schedlist s ! k)"
  proof -
    fix k assume k: "k < sched_count s"
    show "sched_id (schedlist s' ! k) = sched_id (schedlist s ! k)"
    proof (cases "k = n")
      case True
      then have "0 \<le> find_pos ident s"
        using k by (cases "find_pos ident s < 0") (simp_all add: n_def event_slot_def)
      then have "find_pos ident s = int n" by (simp add: n_def event_slot_def)
      then have "sched_id (schedlist s ! n) = ident" by (rule found_id)
      then show ?thesis using True by (simp add: e)
    next
      case False
      then show ?thesis unfolding s' using n i k by (simp add: nth_list_update)
    qed
  qed
qed

lemma sched_event_find_pos:
  assumes wf: "wf_state p s" and ok: "fst (sched_event p t dr ident recur ms s) = 1"
  shows "sint ident = uint ident \<Longrightarrow>
           find_pos ident (snd (sched_event p t dr ident recur ms s)) = int (event_slot ident s)"
    and "j \<noteq> ident \<Longrightarrow> find_pos j (snd (sched_event p t dr ident recur ms s)) = find_pos j s"
proof -
  let ?s' = "snd (sched_event p t dr ident recur ms s)"
  note r = sched_event_result[OF wf ok]
  have both: "(sint ident = uint ident \<longrightarrow> find_pos ident ?s' = int (event_slot ident s))
            \<and> (j \<noteq> ident \<longrightarrow> find_pos j ?s' = find_pos j s)"
  proof (cases "find_pos ident s < 0")
    case True
    then have n: "event_slot ident s = sched_count s" by (simp add: event_slot_def)
    have c: "sched_count ?s' = Suc (sched_count s)" using r(3) True by simp
    have idn: "sched_id (schedlist ?s' ! sched_count s) = ident" using r(4) n by simp
    note fp = find_pos_extend[OF c r(12), simplified idn]
    have "j \<noteq> ident \<Longrightarrow> sint j \<noteq> uint ident" using same_id[of j ident] by auto
    then show ?thesis using fp n by simp
  next
    case False
    then have n: "find_pos ident s = int (event_slot ident s)" by (simp add: event_slot_def)
    have c: "sched_count ?s' = sched_count s" using r(3) False by simp
    have "\<And>j. find_pos j ?s' = find_pos j s" using c r(12) by (rule find_pos_cong)
    then show ?thesis using n by simp
  qed
  from both show "sint ident = uint ident \<Longrightarrow> find_pos ident ?s' = int (event_slot ident s)"
    by simp
  from both show "j \<noteq> ident \<Longrightarrow> find_pos j ?s' = find_pos j s" by simp
qed


lemma event_count_read:
  assumes "find_pos ident s = int n"
  shows "sched_pin_event_count u ident level 0 s =
           ((if level \<noteq> 0 then event_ct_up (schedlist s ! n) else event_ct_down (schedlist s ! n)),
            s)"
  using assms
  by (simp add: sched_pin_event_count_def sched_pin_event_count_irq_def Let_def)



subsection \<open>Inactive entries stay inactive\<close>

lemma idle_check: "idle ident s \<Longrightarrow> sched_check p t dr ident s = (0, s)"
  using find_pos_range(1)[of ident s]
  by (auto simp: idle_def sched_check_def sched_check0_def Let_def)

lemma idle_upd:
  assumes "idle ident s" and "\<And>e. sched_id (f e) = sched_id e"
    and "\<And>e. active e = 0 \<Longrightarrow> active (f e) = 0"
  shows "idle ident (upd k f s)"
proof -
  have fp: "find_pos ident (upd k f s) = find_pos ident s" using assms(2) by (rule find_pos_upd)
  have "\<And>m. active (schedlist s ! m) = 0 \<Longrightarrow> active (schedlist (upd k f s) ! m) = 0"
    using assms(3)
    by (cases "k < length (schedlist s)") (auto simp: nth_list_update list_update_beyond)
  then show ?thesis using assms(1) unfolding idle_def fp by blast
qed

lemma find_pos_negative: "sint ident < 0 \<Longrightarrow> find_pos ident s = - 1"
  using find_pos_cases[of ident s] by auto

lemma sched_event_cases:
  assumes "wf_state p s"
  shows "fst (sched_event p t dr ident recur ms s) = 1
       \<or> sched_event p t dr ident recur ms s = (0, s)"
proof (cases "0 \<le> find_pos ident s \<or> sched_count s < MAX_SCHED")
  case True
  show ?thesis unfolding sched_event_ok[OF assms True] by simp
next
  case False
  then show ?thesis by (simp add: sched_event_fails)
qed

lemma idle_event:
  assumes wf: "wf_state p s" and idle: "idle ident s"
    and na: "\<not> (i = ident \<and> \<not> (recur = 0 \<and> ms = 0))"
  shows "idle ident (snd (sched_event p t dr i recur ms s))"
proof (cases "fst (sched_event p t dr i recur ms s) = 1")
  case False
  then show ?thesis using sched_event_cases[OF wf, of t dr i recur ms] idle by auto
next
  case True
  let ?s' = "snd (sched_event p t dr i recur ms s)"
  note r = sched_event_result[OF wf True]
  show ?thesis
  proof (cases "i = ident")
    case same: True
    with na have off: "recur = 0 \<and> ms = 0" by simp
    show ?thesis
    proof (cases "sint ident < 0")
      case True
      then show ?thesis by (simp add: idle_def find_pos_negative)
    next
      case False
      then have "sint ident = uint ident" by (simp add: sint_nonneg_uint)
      then have "find_pos ident ?s' = int (event_slot ident s)"
        using sched_event_find_pos(1)[OF wf True] same by simp
      then show ?thesis using r(10) off same by (simp add: idle_def)
    qed
  next
    case other: False
    then have fp: "find_pos ident ?s' = find_pos ident s"
      using sched_event_find_pos(2)[OF wf True, of ident] by simp
    show ?thesis
    proof (cases "find_pos ident s < 0")
      case True
      then show ?thesis by (simp add: idle_def fp)
    next
      case False
      define m where "m = nat (find_pos ident s)"
      have fm: "find_pos ident s = int m" using False by (simp add: m_def)
      have m: "m < sched_count s" using find_pos_found[OF fm] by simp
      have "m \<noteq> event_slot i s"
      proof
        assume e: "m = event_slot i s"
        then have "0 \<le> find_pos i s"
          using m by (cases "find_pos i s < 0") (simp_all add: event_slot_def)
        then have "find_pos i s = int m" using e by (simp add: event_slot_def)
        then have "sched_id (schedlist s ! m) = i" by (rule found_id)
        moreover have "sched_id (schedlist s ! m) = ident" using fm by (rule found_id)
        ultimately show False using other by simp
      qed
      then have "schedlist ?s' ! m = schedlist s ! m" using r(11)[OF m] by simp
      then show ?thesis using idle False by (simp add: idle_def fp m_def)
    qed
  qed
qed

lemma fold_upd_frame:
  "length (schedlist (fold (\<lambda>i. upd i f) ks s)) = length (schedlist s)
   \<and> sched_analoglist (fold (\<lambda>i. upd i f) ks s) = sched_analoglist s
   \<and> sched_ISR_installed (fold (\<lambda>i. upd i f) ks s) = sched_ISR_installed s"
  by (induction ks arbitrary: s) (simp_all add: upd_def)

lemma fold_zero_length: "length (fold (\<lambda>i l. l[i := v]) ks l) = length l"
  by (induction ks arbitrary: l) simp_all

lemma sched_list_init_wf:
  assumes "wf_state p s"
  shows "wf_state p (sched_list_init p t k s)"
    and "sched_count (sched_list_init p t k s) = 0"
  using assms fold_upd_frame[of clear_sched "[0..<MAX_SCHED]" "s\<lparr>sched_initialized := 0\<rparr>"]
  by (simp_all add: sched_list_init_def Let_def wf_state_def fold_zero_length)

lemma find_pos_empty: "sched_count s = 0 \<Longrightarrow> find_pos ident s = - 1"
  by (simp add: find_pos_def)

lemma sched_check_effect:
  "sched_check p t dr i s = (0, s)
   \<or> (\<exists>m. sched_check p t dr i s = (1, upd m (check_entry p t dr) s))"
proof (cases "find_pos i s < 0")
  case True
  then show ?thesis by (simp add: sched_check_def)
next
  case False
  define m where "m = nat (find_pos i s)"
  have fm: "find_pos i s = int m" using False by (simp add: m_def)
  have m: "m < sched_count s" using find_pos_found[OF fm] by simp
  show ?thesis
  proof (cases "m < length (schedlist s)")
    case True
    show ?thesis
      using sched_check0_entry[OF m True, of p t dr] fm
      by (auto simp: sched_check_def Let_def upd_def check_entry_def)
  next
    case False
    then have u: "\<And>f. upd m f s = s" by (simp add: upd_def list_update_beyond)
    have "sched_check p t dr i s = (0, s) \<or> sched_check p t dr i s = (1, s)"
      using fm m by (simp add: sched_check_def sched_check0_def Let_def u split_def)
    then show ?thesis using u by metis
  qed
qed

lemma event_count_effect:
  "\<exists>m f. (\<forall>e. sched_id (f e) = sched_id e \<and> active (f e) = active e)
         \<and> snd (sched_pin_event_count u i level reset s) = upd m f s"
proof (cases "find_pos i s < 0 \<or> reset = 0")
  case True
  then have "snd (sched_pin_event_count u i level reset s) = s"
    by (auto simp: sched_pin_event_count_def sched_pin_event_count_irq_def Let_def split_def)
  then have "snd (sched_pin_event_count u i level reset s) = upd 0 (\<lambda>e. e) s"
    by (simp add: upd_same)
  then show ?thesis by (intro exI[of _ 0] exI[of _ "\<lambda>e. e"]) simp
next
  case False
  define m where "m = nat (find_pos i s)"
  define hold where "hold = (if level \<noteq> 0 then event_ct_up (schedlist s ! m)
                             else event_ct_down (schedlist s ! m))"
  define a :: "16 word" where
    "a = (if event_ct_up (schedlist s ! m) \<noteq> (if level \<noteq> 0 then hold else u) then 1 else 0)"
  define b :: "16 word" where
    "b = (if event_ct_down (schedlist (upd m (\<lambda>e. e\<lparr>event_ct_up := a\<rparr>) s) ! m)
               \<noteq> (if level \<noteq> 0 then u else hold) then 1 else 0)"
  have "snd (sched_pin_event_count u i level reset s)
       = upd m (\<lambda>e. e\<lparr>event_ct_down := b\<rparr>) (upd m (\<lambda>e. e\<lparr>event_ct_up := a\<rparr>) s)"
    using False
    by (cases "level \<noteq> 0")
      (simp_all add: sched_pin_event_count_def sched_pin_event_count_irq_def Let_def preempt_def
        m_def hold_def a_def b_def)
  then have "snd (sched_pin_event_count u i level reset s)
       = upd m (\<lambda>e. e\<lparr>event_ct_up := a, event_ct_down := b\<rparr>) s"
    by (simp add: upd_upd)
  then show ?thesis
    by (intro exI[of _ m] exI[of _ "\<lambda>e. e\<lparr>event_ct_up := a, event_ct_down := b\<rparr>"]) simp
qed

lemma exec_wf:
  assumes "wf_state p s"
  shows "wf_state p (snd (exec p c s))"
proof (cases c)
  case (List_init t k)
  then show ?thesis using sched_list_init_wf(1)[OF assms] by simp
next
  case (Event t dr i recur ms)
  then show ?thesis
    using sched_event_cases[OF assms, of t dr i recur ms] sched_event_result(1)[OF assms] assms
    by auto
next
  case (Cancel t dr i)
  then show ?thesis
    using sched_event_cases[OF assms, of t dr i 0 0] sched_event_result(1)[OF assms] assms
    by (auto simp: sched_cancel_def)
next
  case (Check t dr i)
  then show ?thesis using sched_check_effect[of p t dr i s] assms by auto
next
  case (Pin_gohigh i)
  then show ?thesis using query_effect[OF assms, of "sched_pin_gohigh i s" i] assms by auto
next
  case (Pin_golow i)
  then show ?thesis using query_effect[OF assms, of "sched_pin_golow i s" i] assms by auto
next
  case (Pin_level i l)
  then show ?thesis using query_effect[OF assms, of "sched_pin_level i l s" i l] assms by auto
next
  case (Pin_event_count u i l r)
  then show ?thesis using event_count_effect[of u i l r s] assms by auto
next
  case (Analogread pin)
  then show ?thesis using assms by simp
next
  case (Interrupt t dr al ah)
  then show ?thesis using interrupt_wf[OF assms] assms by (simp add: TIMER0_COMPB_vect_def)
qed

lemma idle_interrupt:
  assumes wf: "wf_state p s" and idle: "idle ident s"
  shows "idle ident (sched_background_int p t dr al ah s)"
proof (cases "find_pos ident s < 0")
  case True
  then show ?thesis by (simp add: idle_def interrupt_find_pos[OF wf])
next
  case False
  define m where "m = nat (find_pos ident s)"
  have fm: "find_pos ident s = int m" using False by (simp add: m_def)
  have m: "m < sched_count s" using find_pos_found[OF fm] by simp
  then have ml: "m < length (schedlist s)" using wf by (simp add: wf_state_def)
  have a: "active (schedlist s ! m) = 0" using idle False by (simp add: idle_def m_def)
  have "schedlist (sched_background_int p t dr al ah s) ! m = schedlist s ! m"
    using interrupt_entry[OF wf ml] m a by (simp add: tick_entry_inactive)
  then show ?thesis using a by (simp add: idle_def interrupt_find_pos[OF wf] fm)
qed

lemma check_entry_stays_inactive: "active e = 0 \<Longrightarrow> active (check_entry p t dr e) = 0"
  by (simp add: check_entry_inactive)

lemma exec_idle:
  assumes wf: "wf_state p s" and idle: "idle ident s" and na: "\<not> arms ident c"
  shows "idle ident (snd (exec p c s))"
proof (cases c)
  case (List_init t k)
  then show ?thesis
    using sched_list_init_wf(2)[OF wf] by (simp add: idle_def find_pos_empty)
next
  case (Event t dr i recur ms)
  then show ?thesis using idle_event[OF wf idle, of i recur ms t dr] na by simp
next
  case (Cancel t dr i)
  then show ?thesis using idle_event[OF wf idle, of i 0 0 t dr] by (simp add: sched_cancel_def)
next
  case (Check t dr i)
  then show ?thesis
    using sched_check_effect[of p t dr i s] idle
      idle_upd[OF idle, of "check_entry p t dr"] check_entry_stays_inactive
    by auto
next
  case (Pin_gohigh i)
  then show ?thesis
    using query_effect[OF wf, of "sched_pin_gohigh i s" i] idle
      idle_upd[OF idle, of "\<lambda>e. e\<lparr>debounce_change := 0\<rparr>"]
    by auto
next
  case (Pin_golow i)
  then show ?thesis
    using query_effect[OF wf, of "sched_pin_golow i s" i] idle
      idle_upd[OF idle, of "\<lambda>e. e\<lparr>debounce_change := 0\<rparr>"]
    by auto
next
  case (Pin_level i l)
  then show ?thesis
    using query_effect[OF wf, of "sched_pin_level i l s" i l] idle
      idle_upd[OF idle, of "\<lambda>e. e\<lparr>debounce_change := 0\<rparr>"]
    by auto
next
  case (Pin_event_count u i l r)
  obtain m f where f: "\<forall>e. sched_id (f e) = sched_id e \<and> active (f e) = active e"
    and s': "snd (sched_pin_event_count u i l r s) = upd m f s"
    using event_count_effect[of u i l r s] by blast
  have "idle ident (upd m f s)" using f by (intro idle_upd[OF idle]) simp_all
  then show ?thesis using Pin_event_count s' by simp
next
  case (Analogread pin)
  then show ?thesis using idle by simp
next
  case (Interrupt t dr al ah)
  then show ?thesis using idle_interrupt[OF wf idle] idle by (simp add: TIMER0_COMPB_vect_def)
qed

lemma run_idle:
  assumes "wf_state p s" and "idle ident s" and "\<forall>c \<in> set cs. \<not> arms ident c"
  shows "idle ident (snd (run p cs s)) \<and> wf_state p (snd (run p cs s))"
  using assms
proof (induction cs arbitrary: s)
  case Nil
  then show ?case by simp
next
  case (Cons c cs)
  have "wf_state p (snd (exec p c s))" using Cons.prems(1) by (rule exec_wf)
  moreover have "idle ident (snd (exec p c s))"
    using Cons.prems by (intro exec_idle) simp_all
  ultimately show ?case using Cons.IH[of "snd (exec p c s)"] Cons.prems(3) by simp
qed

lemma cancel_registered:
  assumes wf: "wf_state p s" and f: "find_pos ident s = int n"
  shows "cancelled p ident n (sched_count s) (snd (sched_cancel p t dr ident s))"
    and "fst (sched_cancel p t dr ident s) = 1"
proof -
  have c: "0 \<le> find_pos ident s \<or> sched_count s < MAX_SCHED" using f by simp
  have ok: "fst (sched_event p t dr ident 0 0 s) = 1" unfolding sched_event_ok[OF wf c] by simp
  have n: "event_slot ident s = n" using f by (simp add: event_slot_def)
  have "0 \<le> sint ident" using find_pos_found[OF f] by simp
  then have sg: "sint ident = uint ident" by (rule sint_nonneg_uint)
  note r = sched_event_result[OF wf ok, unfolded n]
  show "cancelled p ident n (sched_count s) (snd (sched_cancel p t dr ident s))"
    unfolding cancelled_def sched_cancel_def
    using r(1,3,8,9,10) sched_event_find_pos(1)[OF wf ok sg] n f by simp
  show "fst (sched_cancel p t dr ident s) = 1" unfolding sched_cancel_def by (rule ok)
qed

lemma cancels_form: "cancels ident c \<Longrightarrow> \<exists>t dr. c = Cancel t dr ident"
  by (cases c) simp_all

lemma run_cancels:
  assumes "\<forall>c \<in> set cs. cancels ident c" and "cancelled p ident n k s"
  shows "cancelled p ident n k (snd (run p cs s))"
  using assms
proof (induction cs arbitrary: s)
  case Nil
  then show ?case by simp
next
  case (Cons c cs)
  have "cancels ident c" using Cons.prems(1) by simp
  then obtain t dr where c: "c = Cancel t dr ident" using cancels_form by blast
  have "cancelled p ident n k (snd (sched_cancel p t dr ident s))"
    using cancel_registered(1)[of p s ident n t dr] Cons.prems(2) by (simp add: cancelled_def)
  then show ?case using Cons.IH Cons.prems(1) c by simp
qed

lemma cancelled_idle: "cancelled p ident n k s \<Longrightarrow> idle ident s"
  by (simp add: cancelled_def idle_def)

lemma cancelled_level:
  assumes "cancelled p ident n k s"
  shows "sched_pin_level ident level s = (0, s)"
proof -
  have f: "find_pos ident s = int n" and wf: "wf_state p s"
    and a: "active (schedlist s ! n) = 0"
    using assms by (simp_all add: cancelled_def)
  have m: "n < sched_count s" using find_pos_found[OF f] by simp
  then have ml: "n < length (schedlist s)" using wf by (simp add: wf_state_def)
  show ?thesis
    using f a sched_pin_test0_entry[OF m ml, of level 0]
    by (simp add: pin_query_unfold prod_eq_iff)
qed

subsection \<open>A recurring timer polled once per tick\<close>

lemma of_nat_le_32:
  "a < 2 ^ 32 \<Longrightarrow> b < 2 ^ 32 \<Longrightarrow> ((of_nat a :: 32 word) \<le> of_nat b) = (a \<le> b)"
  by (simp add: word_le_nat_alt unat_of_nat)

lemma poll_run_Cons:
  "fst (poll_run p dr ident (t # ts) s)
     = fst (sched_check p t dr ident (TIMER0_COMPB_vect p t dr 0 0 s))
       # fst (poll_run p dr ident ts
                (snd (sched_check p t dr ident (TIMER0_COMPB_vect p t dr 0 0 s))))"
  by (simp add: Let_def split_def)

text \<open>A due recurring entry with period 1000 under one check at tick \<open>a\<close>.\<close>

lemma due_check_entry:
  assumes "active e \<noteq> 0" and "recurring e \<noteq> 0" and "schedms e = 1000"
    and "schedtime e = of_nat D" and "D < 2 ^ 32" and "a < 2 ^ 32"
  shows "active (check_entry p (of_nat a) dr e) \<noteq> 0"
    and "schedtime (check_entry p (of_nat a) dr e) = (if D \<le> a then of_nat (D + 1000) else of_nat D)"
  using assms
  by (simp_all add: check_entry_def expire_entry_def of_nat_le_32 Let_def)

lemma timer_due_check:
  assumes td: "timer_due p ident n D s" and a: "a < 2 ^ 32"
    and d: "D \<le> a \<Longrightarrow> D + 1000 < 2 ^ 32"
  shows "fst (sched_check p (of_nat a) dr ident s) = (if D \<le> a then 1 else 0)"
    and "timer_due p ident n (if D \<le> a then D + 1000 else D)
           (snd (sched_check p (of_nat a) dr ident s))"
proof -
  have wf: "wf_state p s" and f: "find_pos ident s = int n"
    and e: "active (schedlist s ! n) \<noteq> 0" "recurring (schedlist s ! n) \<noteq> 0"
      "schedms (schedlist s ! n) = 1000" "schedtime (schedlist s ! n) = of_nat D" "D < 2 ^ 32"
    using td by (simp_all add: timer_due_def)
  have m: "n < sched_count s" using find_pos_found[OF f] by simp
  then have ml: "n < length (schedlist s)" using wf by (simp add: wf_state_def)
  have chk: "sched_check p (of_nat a) dr ident s
      = ((if D \<le> a then 1 else 0), upd n (check_entry p (of_nat a) dr) s)"
    using f e a sched_check0_entry[OF m ml, of p "of_nat a" dr]
    by (simp add: sched_check_def of_nat_le_32)
  show "fst (sched_check p (of_nat a) dr ident s) = (if D \<le> a then 1 else 0)"
    unfolding chk by simp
  show "timer_due p ident n (if D \<le> a then D + 1000 else D)
           (snd (sched_check p (of_nat a) dr ident s))"
    unfolding chk timer_due_def
    using wf f ml d e due_check_entry[OF e a, of p dr]
    by (simp add: find_pos_upd)
qed

lemma timer_due_interrupt:
  assumes td: "timer_due p ident n D s" and a: "a < 2 ^ 32"
    and d: "D \<le> a \<Longrightarrow> D + 1000 < 2 ^ 32"
  shows "timer_due p ident n
           (if is_pin p ident \<and> sched_initialized s \<noteq> 0 \<and> D \<le> a then D + 1000 else D)
           (TIMER0_COMPB_vect p (of_nat a) dr al ah s)"
    and "sched_initialized (TIMER0_COMPB_vect p (of_nat a) dr al ah s) = sched_initialized s"
proof -
  have wf: "wf_state p s" and f: "find_pos ident s = int n"
    and e: "active (schedlist s ! n) \<noteq> 0" "recurring (schedlist s ! n) \<noteq> 0"
      "schedms (schedlist s ! n) = 1000" "schedtime (schedlist s ! n) = of_nat D" "D < 2 ^ 32"
    using td by (simp_all add: timer_due_def)
  have m: "n < sched_count s" using find_pos_found[OF f] by simp
  then have ml: "n < length (schedlist s)" using wf by (simp add: wf_state_def)
  have c: "sched_count s \<le> length (schedlist s)" using wf by (simp add: wf_state_def)
  have i: "sched_id (schedlist s ! n) = ident" using f by (rule found_id)
  show "sched_initialized (TIMER0_COMPB_vect p (of_nat a) dr al ah s) = sched_initialized s"
    by (simp add: TIMER0_COMPB_vect_def interrupt_schedlist(3)[OF c])
  show "timer_due p ident n
           (if is_pin p ident \<and> sched_initialized s \<noteq> 0 \<and> D \<le> a then D + 1000 else D)
           (TIMER0_COMPB_vect p (of_nat a) dr al ah s)"
  proof (cases "sched_initialized s \<noteq> 0")
    case False
    then show ?thesis using td by (simp add: TIMER0_COMPB_vect_def)
  next
    case True
    have en: "schedlist (sched_background_int p (of_nat a) dr al ah s) ! n
                = tick_entry p (of_nat a) dr (schedlist s ! n)"
      using interrupt_entry[OF wf ml] m by simp
    show ?thesis
      unfolding timer_due_def
      using True wf f d e i due_check_entry[OF e a, of p dr]
      by (simp add: TIMER0_COMPB_vect_def interrupt_wf interrupt_find_pos en tick_entry_def)
  qed
qed

lemma expiry_shift:
  assumes "D < (k :: nat)"
  shows "(D + 1000 \<le> k \<and> (k - (D + 1000)) mod 1000 = 0) = (D \<le> k \<and> (k - D) mod 1000 = 0)"
proof (cases "D + 1000 \<le> k")
  case True
  then have "k - D = (k - (D + 1000)) + 1000" by linarith
  then have "(k - D) mod 1000 = (k - (D + 1000)) mod 1000" by (metis mod_add_self2)
  moreover have "D \<le> k" using assms by linarith
  ultimately show ?thesis using True by metis
next
  case False
  then have "k - D < 1000" "0 < k - D" using assms by linarith+
  then have "(k - D) mod 1000 \<noteq> 0" by (metis mod_less less_numeral_extra(3))
  then show ?thesis using False by metis
qed

lemma cadence_manual:
  assumes "\<not> is_pin p ident"
  shows "timer_due p ident n D s \<Longrightarrow> a \<le> D \<Longrightarrow> D \<le> a + 1000 \<Longrightarrow> a + m + 1000 \<le> 2 ^ 32
     \<Longrightarrow> fst (poll_run p dr ident (map of_nat [a..<a + m]) s)
           = map (\<lambda>k. if D \<le> k \<and> (k - D) mod 1000 = 0 then 1 else 0) [a..<a + m]"
proof (induction m arbitrary: a D s)
  case 0
  then show ?case by simp
next
  case (Suc m)
  let ?s1 = "TIMER0_COMPB_vect p (of_nat a) dr 0 0 s"
  let ?s2 = "snd (sched_check p (of_nat a) dr ident ?s1)"
  let ?D = "if D \<le> a then D + 1000 else D"
  have a: "a < 2 ^ 32" using Suc.prems(4) by linarith
  have d: "D \<le> a \<Longrightarrow> D + 1000 < 2 ^ 32" using Suc.prems(2,4) by linarith
  have td1: "timer_due p ident n D ?s1"
    using timer_due_interrupt(1)[OF Suc.prems(1) a d, of dr 0 0] assms by simp
  have r: "fst (sched_check p (of_nat a) dr ident ?s1) = (if D \<le> a then 1 else 0)"
    by (rule timer_due_check(1)[OF td1 a d])
  have td2: "timer_due p ident n ?D ?s2" by (rule timer_due_check(2)[OF td1 a d])
  have b1: "Suc a \<le> ?D"
    using Suc.prems(2) by (cases "D \<le> a"; simp only: if_True if_False; linarith)
  have b2: "?D \<le> Suc a + 1000"
    using Suc.prems(2,3) by (cases "D \<le> a"; simp only: if_True if_False; linarith)
  have b3: "Suc a + m + 1000 \<le> 2 ^ 32" using Suc.prems(4) by linarith
  have ih: "fst (poll_run p dr ident (map of_nat [Suc a..<Suc a + m]) ?s2)
           = map (\<lambda>k. if ?D \<le> k \<and> (k - ?D) mod 1000 = 0 then 1 else 0) [Suc a..<Suc a + m]"
    by (rule Suc.IH[OF td2 b1 b2 b3])
  have tl: "map (\<lambda>k. if ?D \<le> k \<and> (k - ?D) mod 1000 = 0 then 1 else 0) [Suc a..<Suc a + m]
          = map (\<lambda>k. if D \<le> k \<and> (k - D) mod 1000 = 0 then (1 :: 8 word) else 0)
              [Suc a..<Suc a + m]"
  proof (rule map_cong[OF refl])
    fix k assume "k \<in> set [Suc a..<Suc a + m]"
    then have k: "a < k" by auto
    show "(if ?D \<le> k \<and> (k - ?D) mod 1000 = 0 then 1 else 0)
        = (if D \<le> k \<and> (k - D) mod 1000 = 0 then (1 :: 8 word) else 0)"
    proof (cases "D \<le> a")
      case True
      then have "D < k" using k by linarith
      then have "(D + 1000 \<le> k \<and> (k - (D + 1000)) mod 1000 = 0)
                   = (D \<le> k \<and> (k - D) mod 1000 = 0)"
        by (rule expiry_shift)
      then show ?thesis using True by (simp only: if_True)
    next
      case False
      then show ?thesis by (simp only: if_False)
    qed
  qed
  have up: "[a..<a + Suc m] = a # [Suc a..<Suc a + m]" by (simp add: upt_conv_Cons)
  have "a = D" if "D \<le> a" using that Suc.prems(2) by linarith
  then have hd: "(if D \<le> a then (1 :: 8 word) else 0)
          = (if D \<le> a \<and> (a - D) mod 1000 = 0 then 1 else 0)"
    by (cases "D \<le> a") auto
  show ?case
    unfolding up list.map poll_run_Cons r ih tl hd by (rule refl)
qed

lemma starved_pin:
  assumes "is_pin p ident"
  shows "timer_due p ident n D s \<Longrightarrow> sched_initialized s \<noteq> 0 \<Longrightarrow> a \<le> D
     \<Longrightarrow> D \<le> a + 1000 \<Longrightarrow> a + m + 1000 \<le> 2 ^ 32
     \<Longrightarrow> fst (poll_run p dr ident (map of_nat [a..<a + m]) s) = replicate m 0"
proof (induction m arbitrary: a D s)
  case 0
  then show ?case by simp
next
  case (Suc m)
  let ?s1 = "TIMER0_COMPB_vect p (of_nat a) dr 0 0 s"
  let ?s2 = "snd (sched_check p (of_nat a) dr ident ?s1)"
  let ?D = "if D \<le> a then D + 1000 else D"
  have a: "a < 2 ^ 32" using Suc.prems(5) by linarith
  have d: "D \<le> a \<Longrightarrow> D + 1000 < 2 ^ 32" using Suc.prems(3,5) by linarith
  have td1: "timer_due p ident n ?D ?s1"
    using timer_due_interrupt(1)[OF Suc.prems(1) a d, of dr 0 0] assms Suc.prems(2) by simp
  have i1: "sched_initialized ?s1 \<noteq> 0"
    using timer_due_interrupt(2)[OF Suc.prems(1) a d, of dr 0 0] Suc.prems(2) by simp
  have b1: "Suc a \<le> ?D"
    using Suc.prems(3) by (cases "D \<le> a"; simp only: if_True if_False; linarith)
  have b2: "?D \<le> Suc a + 1000"
    using Suc.prems(3,4) by (cases "D \<le> a"; simp only: if_True if_False; linarith)
  have b3: "Suc a + m + 1000 \<le> 2 ^ 32" using Suc.prems(5) by linarith
  have late: "\<not> ?D \<le> a" using b1 by linarith
  have d1: "?D \<le> a \<Longrightarrow> ?D + 1000 < 2 ^ 32" using late by blast
  have r: "fst (sched_check p (of_nat a) dr ident ?s1) = 0"
    using timer_due_check(1)[OF td1 a d1, of dr] late by (simp only: if_False)
  have td2: "timer_due p ident n ?D ?s2"
    using timer_due_check(2)[OF td1 a d1, of dr] late by (simp only: if_False)
  have i2: "sched_initialized ?s2 \<noteq> 0"
    using sched_check_effect[of p "of_nat a" dr ident ?s1] i1 by auto
  have ih: "fst (poll_run p dr ident (map of_nat [Suc a..<Suc a + m]) ?s2) = replicate m 0"
    by (rule Suc.IH[OF td2 i2 b1 b2 b3])
  have up: "[a..<a + Suc m] = a # [Suc a..<Suc a + m]" by (simp add: upt_conv_Cons)
  show ?case unfolding up list.map poll_run_Cons r ih by simp
qed

text \<open>The ticks \<open>t0 + 1, ..., t0 + m\<close> of a run that starts at tick \<open>t0\<close>.\<close>

lemma shift_upt: "map (\<lambda>k. c + k) [i..<j] = [c + i..<c + j]"
  by (rule nth_equalityI) (simp_all add: add.assoc)

lemma ticks_after:
  "map (\<lambda>k. (t0 :: 32 word) + of_nat k) [i..<j] = map of_nat [unat t0 + i..<unat t0 + j]"
proof -
  have "map (\<lambda>k. t0 + of_nat k) [i..<j] = map (\<lambda>k. of_nat (unat t0 + k)) [i..<j]"
    by simp
  also have "\<dots> = map of_nat (map (\<lambda>k. unat t0 + k) [i..<j])" by (simp add: comp_def)
  also have "map (\<lambda>k. unat t0 + k) [i..<j] = [unat t0 + i..<unat t0 + j]"
    by (rule shift_upt)
  finally show ?thesis .
qed

lemma expiry_index:
  assumes "(k :: nat) < 3501"
  shows "(c + 1000 \<le> c + k \<and> (c + k - (c + 1000)) mod 1000 = 0)
           = (k = 1000 \<or> k = 2000 \<or> k = 3000)"
proof
  assume h: "c + 1000 \<le> c + k \<and> (c + k - (c + 1000)) mod 1000 = 0"
  then have ge: "1000 \<le> k" by linarith
  have "c + k - (c + 1000) = k - 1000" by linarith
  with h have "(k - 1000) mod 1000 = 0" by metis
  then have "1000 dvd (k - 1000)" by (simp only: mod_eq_0_iff_dvd)
  then obtain q where q: "k - 1000 = 1000 * q" by (rule dvdE)
  have "1000 * q < 1000 * 3" using q assms by linarith
  then have "q < 3" by (metis nat_mult_less_cancel_disj)
  then have "q = 0 \<or> q = 1 \<or> q = 2" by linarith
  then show "k = 1000 \<or> k = 2000 \<or> k = 3000" using q ge by auto
next
  assume "k = 1000 \<or> k = 2000 \<or> k = 3000"
  then show "c + 1000 \<le> c + k \<and> (c + k - (c + 1000)) mod 1000 = 0"
    by auto
qed

lemma poll_known:
  assumes wf: "wf_state p s" and f: "find_pos ident s = int n"
  shows "sched_check p t dr ident s =
           ((if active (schedlist s ! n) \<noteq> 0 \<and> schedtime (schedlist s ! n) \<le> t then 1 else 0),
            upd n (check_entry p t dr) s)"
proof -
  have m: "n < sched_count s" using find_pos_found[OF f] by simp
  then have ml: "n < length (schedlist s)" using wf by (simp add: wf_state_def)
  show ?thesis using f sched_check0_entry[OF m ml, of p t dr] by (simp add: sched_check_def)
qed

lemma poll_not_due:
  assumes wf: "wf_state p s" and f: "find_pos ident s = int n"
    and "fst (sched_check p t dr ident s) = 0"
  shows "snd (sched_check p t dr ident s) = s"
proof -
  have "\<not> (active (schedlist s ! n) \<noteq> 0 \<and> schedtime (schedlist s ! n) \<le> t)"
    using assms(3) unfolding poll_known[OF wf f] by (simp split: if_splits)
  then have "check_entry p t dr (schedlist s ! n) = schedlist s ! n"
    by (auto simp: check_entry_def)
  then show ?thesis unfolding poll_known[OF wf f] by (simp add: upd_def)
qed

lemma expire_entry_active:
  "active (expire_entry p dr e) = (if recurring e \<noteq> 0 then active e else 0)"
  by (simp add: expire_entry_def Let_def)

lemma expire_entry_schedtime:
  "recurring e \<noteq> 0 \<Longrightarrow>
     schedtime (expire_entry p dr e) = schedtime e + schedms e + (if schedms e = 0 then 1 else 0)"
  by (simp add: expire_entry_def Let_def)

lemma poll_fired:
  assumes wf: "wf_state p s" and f: "find_pos ident s = int n"
    and "fst (sched_check p t dr ident s) = 1"
  shows "schedlist (snd (sched_check p t dr ident s)) ! n = expire_entry p dr (schedlist s ! n)"
    and "wf_state p (snd (sched_check p t dr ident s))"
    and "find_pos ident (snd (sched_check p t dr ident s)) = int n"
    and "active (schedlist s ! n) \<noteq> 0"
proof -
  have m: "n < sched_count s" using find_pos_found[OF f] by simp
  then have ml: "n < length (schedlist s)" using wf by (simp add: wf_state_def)
  have due: "active (schedlist s ! n) \<noteq> 0 \<and> schedtime (schedlist s ! n) \<le> t"
    using assms(3) unfolding poll_known[OF wf f] by (simp split: if_splits)
  show "schedlist (snd (sched_check p t dr ident s)) ! n = expire_entry p dr (schedlist s ! n)"
    unfolding poll_known[OF wf f] using due ml by (simp add: check_entry_def)
  show "wf_state p (snd (sched_check p t dr ident s))"
    unfolding poll_known[OF wf f] using wf by simp
  show "find_pos ident (snd (sched_check p t dr ident s)) = int n"
    unfolding poll_known[OF wf f] using f by (simp add: find_pos_upd)
  show "active (schedlist s ! n) \<noteq> 0" using due by simp
qed

lemma one_shot_then_idle:
  assumes wf: "wf_state p s" and f: "find_pos ident s = int n"
    and fired: "fst (sched_check p t dr ident s) = 1" and once: "recurring (schedlist s ! n) = 0"
    and quiet: "\<forall>c \<in> set cs. \<not> arms ident c"
  shows "sched_check p t' dr' ident (snd (run p cs (snd (sched_check p t dr ident s))))
           = (0, snd (run p cs (snd (sched_check p t dr ident s))))"
proof -
  note r = poll_fired[OF wf f fired]
  have "idle ident (snd (sched_check p t dr ident s))"
    unfolding idle_def r(3) using r(1) once by (simp add: expire_entry_active)
  then have "idle ident (snd (run p cs (snd (sched_check p t dr ident s))))"
    using run_idle[OF r(2) _ quiet] by simp
  then show ?thesis by (rule idle_check)
qed

lemma arm_timer_due:
  assumes wf: "wf_state p s" and ok: "fst (sched_event p t0 dr0 ident recur 1000 s) = 1"
    and "recur \<noteq> 0" and "0 \<le> sint ident" and "unat t0 + 1000 < 2 ^ 32"
  shows "timer_due p ident (event_slot ident s) (unat t0 + 1000)
           (snd (sched_event p t0 dr0 ident recur 1000 s))"
proof -
  have sg: "sint ident = uint ident" using assms(4) by (rule sint_nonneg_uint)
  note r = sched_event_result[OF wf ok]
  have "(1000 :: 32 word) + t0 = of_nat (unat t0 + 1000)" by simp
  then show ?thesis
    unfolding timer_due_def
    using r(1,5,6,7,10) sched_event_find_pos(1)[OF wf ok sg] assms(3,5) by simp
qed

lemma cadence_after_arm:
  assumes wf: "wf_state p s" and manual: "\<not> is_pin p ident" and "0 \<le> sint ident"
    and "recur \<noteq> 0" and ok: "fst (sched_event p t0 dr0 ident recur 1000 s) = 1"
    and room: "unat t0 + 4500 < 2 ^ 32"
  shows "fst (poll_run p dr ident (map (\<lambda>k. t0 + of_nat k) [1..<3501])
                (snd (sched_event p t0 dr0 ident recur 1000 s)))
           = map (\<lambda>k. if k = 1000 \<or> k = 2000 \<or> k = 3000 then 1 else 0) [1..<3501]"
proof -
  let ?c = "unat t0"
  let ?s1 = "snd (sched_event p t0 dr0 ident recur 1000 s)"
  have r1: "?c + 1000 < 2 ^ 32" using room by linarith
  have td: "timer_due p ident (event_slot ident s) (?c + 1000) ?s1"
    by (rule arm_timer_due[OF wf ok assms(4,3) r1])
  have b1: "?c + 1 \<le> ?c + 1000" by linarith
  have b2: "?c + 1000 \<le> ?c + 1 + 1000" by linarith
  have b3: "?c + 1 + 3500 + 1000 \<le> 2 ^ 32" using room by linarith
  have e: "?c + 1 + 3500 = ?c + 3501" by linarith
  have ticks: "map (\<lambda>k. t0 + of_nat k) [1..<3501] = map of_nat [?c + 1..<?c + 1 + 3500]"
    unfolding e by (rule ticks_after)
  have res: "fst (poll_run p dr ident (map of_nat [?c + 1..<?c + 1 + 3500]) ?s1)
          = map (\<lambda>k. if ?c + 1000 \<le> k \<and> (k - (?c + 1000)) mod 1000 = 0 then 1 else 0)
              [?c + 1..<?c + 1 + 3500]"
    by (rule cadence_manual[OF manual td b1 b2 b3])
  have l: "[?c + 1..<?c + 1 + 3500] = map (\<lambda>k. ?c + k) [1..<3501]"
    unfolding e by (rule shift_upt[symmetric])
  have conv: "map (\<lambda>k. if ?c + 1000 \<le> k \<and> (k - (?c + 1000)) mod 1000 = 0 then 1 else 0)
               [?c + 1..<?c + 1 + 3500]
           = map (\<lambda>k. if k = 1000 \<or> k = 2000 \<or> k = 3000 then (1 :: 8 word) else 0) [1..<3501]"
    unfolding l map_map comp_def
  proof (rule map_cong[OF refl])
    fix k :: nat assume "k \<in> set [1..<3501]"
    then have "k < 3501" by auto
    then show "(if ?c + 1000 \<le> ?c + k \<and> (?c + k - (?c + 1000)) mod 1000 = 0 then 1 else 0)
             = (if k = 1000 \<or> k = 2000 \<or> k = 3000 then (1 :: 8 word) else 0)"
      by (simp only: expiry_index)
  qed
  show ?thesis unfolding ticks res conv by (rule refl)
qed

lemma wf_tiny: "wf_state ATtinyX5 tiny_init" "wf_state ATtinyX5 tiny_timer"
  "wf_state ATtinyX5 tiny_once"
  by code_simp+

subsection \<open>Registration snapshots, the reset block under interrupts, the analog guard\<close>

text \<open>
  A first registration of a pin snapshots its level into the new entry; a registration of
  an identifier that is already in the table snapshots only the accumulator.
\<close>

lemma sched_event_fresh_snapshot:
  assumes "wf_state p s" and "find_pos ident s < 0" and "sched_count s < MAX_SCHED"
    and "is_pin p ident"
  shows "debounce_ct (schedlist (snd (sched_event p t dr ident recur ms s)) ! sched_count s)
           = (if dr ident then DEBOUNCE_THRESH_MAX else DEBOUNCE_THRESH_BOTTOM)
       \<and> debounce_state (schedlist (snd (sched_event p t dr ident recur ms s)) ! sched_count s)
           = (if dr ident then HIGH else LOW)
       \<and> debounce_change (schedlist (snd (sched_event p t dr ident recur ms s)) ! sched_count s)
           = 0"
proof -
  have c: "0 \<le> find_pos ident s \<or> sched_count s < MAX_SCHED" using assms(3) by simp
  have i: "sched_count s < length (schedlist s)" using assms(1) by (simp add: wf_state_def)
  have n: "event_slot ident s = sched_count s" using assms(2) by (simp add: event_slot_def)
  show ?thesis
    unfolding sched_event_ok[OF assms(1) c] n using i assms(4)
    by (simp add: nth_list_update snap_entry_def arm_entry_def)
qed

lemma sched_event_again_keeps_level:
  assumes "wf_state p s" and "find_pos ident s = int n" and "is_pin p ident"
  shows "debounce_ct (schedlist (snd (sched_event p t dr ident recur ms s)) ! n)
           = (if dr ident then DEBOUNCE_THRESH_MAX else DEBOUNCE_THRESH_BOTTOM)
       \<and> debounce_state (schedlist (snd (sched_event p t dr ident recur ms s)) ! n)
           = debounce_state (schedlist s ! n)
       \<and> debounce_change (schedlist (snd (sched_event p t dr ident recur ms s)) ! n)
           = debounce_change (schedlist s ! n)"
proof -
  have c: "0 \<le> find_pos ident s \<or> sched_count s < MAX_SCHED" using assms(2) by simp
  have i: "sched_count s < length (schedlist s)" using assms(1) by (simp add: wf_state_def)
  have n: "event_slot ident s = n" using assms(2) by (simp add: event_slot_def)
  have lt: "n < sched_count s" using find_pos_found[OF assms(2)] by simp
  then have nl: "n < length (schedlist s)" using i by simp
  show ?thesis
    unfolding sched_event_ok[OF assms(1) c] n using i nl lt assms(3)
    by (simp add: nth_list_update arm_entry_def)
qed

text \<open>
  The reset block of \<^verbatim>\<open>sched_pin_event_count\<close> when one interrupt \<open>f\<close> fires during
  the call and changes the rising counter of the entry: before the comparison the
  counter ends at 1, after the comparison it ends at 0.
\<close>

lemma reset_sees_interrupt_before_comparison:
  assumes "find_pos ident s = int n" and "n < length (schedlist (f s))"
    and "event_ct_up (schedlist (f s) ! n) \<noteq> event_ct_up (schedlist s ! n)"
    and "level \<noteq> 0" and "reset \<noteq> 0"
  shows "fst (sched_pin_event_count_irq [no_irq, f] u ident level reset s)
           = event_ct_up (schedlist s ! n)
       \<and> event_ct_up (schedlist (snd (sched_pin_event_count_irq [no_irq, f] u ident level reset s))
           ! n) = 1"
  using assms
  by (simp add: sched_pin_event_count_irq_def no_irq_def preempt_def Let_def)

lemma reset_misses_interrupt_after_comparison:
  assumes "find_pos ident s = int n" and "n < length (schedlist (f s))"
    and "level \<noteq> 0" and "reset \<noteq> 0"
  shows "fst (sched_pin_event_count_irq [no_irq, no_irq, f] u ident level reset s)
           = event_ct_up (schedlist s ! n)
       \<and> event_ct_up
            (schedlist (snd (sched_pin_event_count_irq [no_irq, no_irq, f] u ident level reset s))
              ! n) = 0"
  using assms
  by (simp add: sched_pin_event_count_irq_def no_irq_def preempt_def Let_def)

text \<open>The guard of \<^verbatim>\<open>sched_analogread\<close>.\<close>

lemma sched_analogread_beyond: "pin > sched_num_analogs s \<Longrightarrow> sched_analogread pin s = Some 0"
  by (simp add: sched_analogread_def)

lemma sched_analogread_at_count:
  "sched_analogread (sched_num_analogs s) s
     = (if unat (sched_num_analogs s) < length (sched_analoglist s)
        then Some (sched_analoglist s ! unat (sched_num_analogs s)) else None)"
  by (simp add: sched_analogread_def)

section \<open>The claims\<close>

text \<open>
  C5, which the code breaks: for every channel number at or beyond the configured scan
  count, \<^verbatim>\<open>sched_analogread\<close> should return 0 without reading the sample buffer. The
  guard of the source is \<^verbatim>\<open>pin > sched_num_analogs\<close>, so the channel equal to the
  count passes it and the buffer is read at that index. With all six Arduino channels
  scanned, channel 6 is read one element past the end of the six-element buffer; channel
  7 is refused as the claim says.
\<close>

theorem analogread_count_channel_reads_past_buffer:
  "sched_num_analogs (sched_list_init Arduino 0 6 (startup_state Arduino)) = 6
   \<and> length (sched_analoglist (sched_list_init Arduino 0 6 (startup_state Arduino))) = 6
   \<and> sched_analogread 6 (sched_list_init Arduino 0 6 (startup_state Arduino)) = None
   \<and> sched_analogread 7 (sched_list_init Arduino 0 6 (startup_state Arduino)) = Some 0"
  by code_simp

text \<open>
  C9: when the table holds \<open>MAX_SCHED\<close> entries and none of them carries the
  identifier, \<^verbatim>\<open>sched_event\<close> returns 0 and the whole state (every entry with its
  counters, and the count) is the state before the call.
\<close>

theorem sched_event_full_table:
  assumes "sched_count s = MAX_SCHED"
    and "\<forall>i < sched_count s. uint (sched_id (schedlist s ! i)) \<noteq> sint ident"
  shows "sched_event p timems digitalRead ident recur ms s = (0, s)"
proof -
  have "find_pos ident s = - 1" using assms(2) by (rule find_pos_absent)
  with assms(1) show ?thesis by (simp add: sched_event_def)
qed

theorem sched_event_full_table_witness:
  "sched_event Arduino 7 (pin_reads False) 42 1 1000 scen_full = (0, scen_full)"
proof -
  have c: "sched_count scen_full = MAX_SCHED" by code_simp
  have "find_pos 42 scen_full = - 1" by code_simp
  with find_pos_cases[of 42 scen_full]
  have a: "\<forall>i < sched_count scen_full.
             uint (sched_id (schedlist scen_full ! i)) \<noteq> sint (42 :: 8 word)"
    by auto
  show ?thesis using sched_event_full_table[OF c a] .
qed

text \<open>
  C10: for a registered identifier, \<^verbatim>\<open>sched_pin_event_count\<close> with a nonzero
  \<^verbatim>\<open>reset\<close> stores into both counters of the entry, whatever the queried direction,
  and each of them ends at 0 or 1: the queried one at 0, the other one at 1 exactly when
  it differs from the unassigned local it is compared with. The returned value is the
  queried counter as it was.
\<close>

theorem event_count_reset_writes_both:
  assumes "wf_state p s" and "find_pos ident s = int n" and "reset \<noteq> 0"
  shows "event_ct_up (schedlist (snd (sched_pin_event_count uninit ident level reset s)) ! n)
           \<in> {0, 1}
       \<and> event_ct_down (schedlist (snd (sched_pin_event_count uninit ident level reset s)) ! n)
           \<in> {0, 1}
       \<and> event_ct_up (schedlist (snd (sched_pin_event_count uninit ident level reset s)) ! n) =
           (if level \<noteq> 0 then 0 else if event_ct_up (schedlist s ! n) \<noteq> uninit then 1 else 0)
       \<and> event_ct_down (schedlist (snd (sched_pin_event_count uninit ident level reset s)) ! n) =
           (if level \<noteq> 0 then (if event_ct_down (schedlist s ! n) \<noteq> uninit then 1 else 0)
            else 0)
       \<and> fst (sched_pin_event_count uninit ident level reset s) =
           (if level \<noteq> 0 then event_ct_up (schedlist s ! n) else event_ct_down (schedlist s ! n))"
proof -
  have n: "n < length (schedlist s)" using assms(1,2) by (rule find_pos_found_wf)
  show ?thesis using assms(2,3) n
    by (simp add: sched_pin_event_count_def sched_pin_event_count_irq_def preempt_def Let_def)
qed

theorem event_count_reset_writes_both_witness:
  "event_ct_up (schedlist (snd (sched_pin_event_count 7 6 0 1 scen_rose)) ! 0) = 1
   \<and> event_ct_down (schedlist (snd (sched_pin_event_count 7 6 0 1 scen_rose)) ! 0) = 0
   \<and> fst (sched_pin_event_count 7 6 0 1 scen_rose) = 0"
proof -
  have f: "find_pos 6 scen_rose = int 0" by code_simp
  have r: "(1 :: 8 word) \<noteq> 0" by simp
  have u: "event_ct_up (schedlist scen_rose ! 0) = 1" by code_simp
  have d: "event_ct_down (schedlist scen_rose ! 0) = 0" by code_simp
  show ?thesis
    using event_count_reset_writes_both[OF wf_scen_rose f r, of 7 0] u d by simp
qed

text \<open>
  C3, as the code has it: \<^verbatim>\<open>sched_pin_test0\<close> clears \<^verbatim>\<open>debounce_change\<close> before
  it looks at \<^verbatim>\<open>delta\<close>, so the level query consumes the flag as the edge queries do.
  For a registered identifier \<^verbatim>\<open>sched_pin_level\<close> returns the confirmed level of an
  active entry and clears its flag (it returns 0 and changes nothing for an inactive
  entry), and \<^verbatim>\<open>sched_pin_gohigh\<close> and \<^verbatim>\<open>sched_pin_golow\<close> issued right after it
  return 0.
\<close>

theorem pin_level_consumes_changed:
  assumes "wf_state p s" and "find_pos ident s = int n"
  shows "sched_pin_level ident level s =
           (if active (schedlist s ! n) \<noteq> 0
            then (debounce_state (schedlist s ! n), upd n (\<lambda>e. e\<lparr>debounce_change := 0\<rparr>) s)
            else (0, s))
       \<and> fst (sched_pin_gohigh ident (snd (sched_pin_level ident level s))) = 0
       \<and> fst (sched_pin_golow ident (snd (sched_pin_level ident level s))) = 0"
proof -
  have n: "n < length (schedlist s)" using assms by (rule find_pos_found_wf)
  have c: "n < sched_count s" using find_pos_found[OF assms(2)] by simp
  let ?s = "upd n (\<lambda>e. e\<lparr>debounce_change := 0\<rparr>) s"
  have lvl: "sched_pin_level ident level s =
           (if active (schedlist s ! n) \<noteq> 0 then (debounce_state (schedlist s ! n), ?s)
            else (0, s))"
    using assms(2) n c by (simp add: sched_pin_level_def sched_pin_test0_def Let_def)
  have f: "find_pos ident ?s = int n" using assms(2) by (simp add: find_pos_upd)
  have hi: "fst (sched_pin_gohigh ident ?s) = 0" "fst (sched_pin_golow ident ?s) = 0"
    using f n c
    by (simp_all add: sched_pin_gohigh_def sched_pin_golow_def sched_pin_test0_def Let_def)
  have lo: "active (schedlist s ! n) = 0
      \<Longrightarrow> fst (sched_pin_gohigh ident s) = 0 \<and> fst (sched_pin_golow ident s) = 0"
    using assms(2) n c
    by (simp add: sched_pin_gohigh_def sched_pin_golow_def sched_pin_test0_def Let_def)
  show ?thesis using lvl hi lo by auto
qed

theorem pin_level_consumes_changed_witness:
  "sched_pin_level 6 0 scen_rose = (HIGH, upd 0 (\<lambda>e. e\<lparr>debounce_change := 0\<rparr>) scen_rose)
   \<and> fst (sched_pin_gohigh 6 (snd (sched_pin_level 6 0 scen_rose))) = 0
   \<and> fst (sched_pin_golow 6 (snd (sched_pin_level 6 0 scen_rose))) = 0"
proof -
  have f: "find_pos 6 scen_rose = int 0" by code_simp
  have a: "active (schedlist scen_rose ! 0) = 1" by code_simp
  have d: "debounce_state (schedlist scen_rose ! 0) = HIGH" by code_simp
  note t = pin_level_consumes_changed[OF wf_scen_rose f, of 0]
  have 1: "sched_pin_level 6 0 scen_rose
             = (HIGH, upd 0 (\<lambda>e. e\<lparr>debounce_change := 0\<rparr>) scen_rose)"
    using t[THEN conjunct1] a d by simp
  show ?thesis
    using 1 t[THEN conjunct2] by (intro conjI) blast+
qed

text \<open>
  C3 as stated fails: after the interrupt has confirmed the rising edge of pin 6,
  \<^verbatim>\<open>sched_pin_gohigh(6)\<close> returns 1, but issued after a \<^verbatim>\<open>sched_pin_level(6, 0)\<close>
  it returns 0.
\<close>

theorem pin_level_keeps_changed_counterexample:
  "fst (sched_pin_gohigh 6 scen_rose) = 1
   \<and> fst (sched_pin_gohigh 6 (snd (sched_pin_level 6 0 scen_rose))) = 0"
  by code_simp

text \<open>
  C1, which the code breaks: a rising edge that the interrupt confirms between the
  stable read of \<^verbatim>\<open>sched_pin_event_count(id, 1, 1)\<close> and its reset store should leave
  the counter at 1, so that no edge is lost. The reset block compares the counter with
  the value read and then stores 0 or 1; the counter is volatile and the comparison and
  the store are separate accesses. Pin 6 is registered with period 0 and reads LOW, its
  counter is 0, and the interrupt of tick 1 (pin HIGH) counts one rising edge. When that
  interrupt fires between the comparison and the store, the call returns 0, the store
  writes 0 over the counted edge, and the next call returns 0. When it fires before the
  comparison, the next call returns 1.
\<close>

theorem reset_race_drops_edge:
  "event_ct_up (schedlist scen_armed ! 0) = 0
   \<and> event_ct_up (schedlist (tick_high scen_armed) ! 0) = 1
   \<and> sched_pin_event_count_irq [no_irq, no_irq, tick_high] 0 6 1 1 scen_armed
       = (0, upd 0 (\<lambda>e. e\<lparr>event_ct_up := 0\<rparr>) (tick_high scen_armed))
   \<and> fst (sched_pin_event_count 0 6 1 0
        (snd (sched_pin_event_count_irq [no_irq, no_irq, tick_high] 0 6 1 1 scen_armed))) = 0
   \<and> fst (sched_pin_event_count 0 6 1 0
        (snd (sched_pin_event_count_irq [no_irq, tick_high] 0 6 1 1 scen_armed))) = 1"
  by code_simp

text \<open>
  C4, which the code breaks: registering a pin should snapshot its level into the
  entry's own \<^verbatim>\<open>debounce_ct\<close>, \<^verbatim>\<open>debounce_state\<close> and \<^verbatim>\<open>debounce_change\<close>, also
  when the identifier is registered again. The source writes \<^verbatim>\<open>debounce_ct\<close> through
  \<^verbatim>\<open>pos\<close> and the other two through the loop counter \<^verbatim>\<open>i\<close>, which equals \<^verbatim>\<open>pos\<close>
  only for a new entry. Pin 6 occupies entry 0 with confirmed level LOW; registered again
  while it reads HIGH, entry 0 gets the accumulator 20 and keeps the level LOW, the level
  HIGH lands in the unused entry 1, and the next interrupt reports a rising edge.
\<close>

theorem rearm_snapshot_misses_slot:
  "find_pos 6 scen_pin_low = 0 \<and> find_pos 6 scen_rearmed = 0 \<and> sched_count scen_rearmed = 1
   \<and> debounce_state (schedlist scen_pin_low ! 0) = LOW
   \<and> laststate (schedlist scen_rearmed ! 0) = HIGH
   \<and> debounce_ct (schedlist scen_rearmed ! 0) = DEBOUNCE_THRESH_MAX
   \<and> debounce_state (schedlist scen_rearmed ! 0) = LOW
   \<and> debounce_state (schedlist scen_rearmed ! 1) = HIGH
   \<and> debounce_change (schedlist scen_rearmed_tick ! 0) = 1
   \<and> event_ct_up (schedlist scen_rearmed_tick ! 0) = 1
   \<and> fst (sched_pin_gohigh 6 scen_rearmed_tick) = 1"
  by code_simp

text \<open>
  C7, as the code has it: when \<^verbatim>\<open>sched_event\<close> arms or re-arms an entry, its due time
  is the current tick plus the period (in 32-bit arithmetic); when \<^verbatim>\<open>sched_check0\<close>
  sees a recurring entry expire, the new due time is the previous due time plus the
  period (plus 1 when the period is 0), whatever the current tick is.
\<close>

theorem due_time_armed_and_rearmed:
  assumes "wf_state p s"
  shows "(fst (sched_event p timems dr ident recur ms s) = 1 \<longrightarrow>
            schedtime (schedlist (snd (sched_event p timems dr ident recur ms s))
              ! event_slot ident s) = timems + ms
            \<and> schedms (schedlist (snd (sched_event p timems dr ident recur ms s))
              ! event_slot ident s) = ms)
       \<and> (n < sched_count s \<and> recurring (schedlist s ! n) \<noteq> 0
            \<and> fst (sched_check0 p now dr (int n) s) = 1 \<longrightarrow>
            schedtime (schedlist (snd (sched_check0 p now dr (int n) s)) ! n) =
              schedtime (schedlist s ! n) + schedms (schedlist s ! n)
                + (if schedms (schedlist s ! n) = 0 then 1 else 0))"
  using sched_event_timing[OF assms] sched_check0_rearm[OF assms] by blast

theorem due_time_armed_and_rearmed_witness:
  "schedtime (schedlist (snd (sched_event Arduino 1500 (pin_reads False) 20 1 1000 scen_timer))
     ! 0) = 2500
   \<and> schedtime (schedlist (snd (sched_check0 Arduino 1500 (pin_reads False) 0 scen_timer))
     ! 0) = 2000"
proof -
  have a: "fst (sched_event Arduino 1500 (pin_reads False) 20 1 1000 scen_timer) = 1"
    by code_simp
  have b: "0 < sched_count scen_timer \<and> recurring (schedlist scen_timer ! 0) \<noteq> 0
            \<and> fst (sched_check0 Arduino 1500 (pin_reads False) (int 0) scen_timer) = 1"
    by code_simp
  have e: "event_slot 20 scen_timer = 0" by code_simp
  have t: "schedtime (schedlist scen_timer ! 0) = 1000" "schedms (schedlist scen_timer ! 0) = 1000"
    by code_simp+
  show ?thesis
    using due_time_armed_and_rearmed[OF wf_scen_timer,
        of 1500 "pin_reads False" 20 1 1000 0 1500] a b e t
    by simp
qed

text \<open>
  C7 as stated fails for the self-rearm: timer 20, armed at tick 0 with period 1000 and
  polled at tick 1500, expires and gets the due time 2000, not 1500 + 1000.
\<close>

theorem due_time_rearm_counterexample:
  "fst (sched_check Arduino 1500 (pin_reads False) 20 scen_timer) = 1
   \<and> schedms (schedlist (snd (sched_check Arduino 1500 (pin_reads False) 20 scen_timer)) ! 0)
       = 1000
   \<and> schedtime (schedlist (snd (sched_check Arduino 1500 (pin_reads False) 20 scen_timer)) ! 0)
       = 2000
   \<and> schedtime (schedlist (snd (sched_check Arduino 1500 (pin_reads False) 20 scen_timer)) ! 0)
       \<noteq> 1500 + 1000"
  by code_simp



text \<open>
  C2, as the code has it: \<^verbatim>\<open>sched_cancel(id)\<close> is \<^verbatim>\<open>sched_event(id, 0, 0)\<close>, which
  keeps the entry of a registered identifier, deactivates it and, as every call of
  \<^verbatim>\<open>sched_event\<close> does, sets both edge counters to 0. After one cancel and any number
  of further cancels (the run \<open>cs1\<close>) the identifier is still registered in the same
  entry of a table of the same size, the entry is inactive, both counters are 0 and read
  as 0, and \<^verbatim>\<open>sched_pin_level\<close> answers 0, as it does for every inactive entry. After
  any later run \<open>cs2\<close> of calls and interrupts in which no \<^verbatim>\<open>sched_event\<close> arms
  the identifier again, \<^verbatim>\<open>sched_check(id)\<close> answers 0 and changes nothing.
\<close>

theorem cancel_deactivates_and_resets:
  assumes "wf_state p s" and "find_pos ident s = int n"
    and "cs1 \<noteq> []" and "\<forall>c \<in> set cs1. cancels ident c" and "s1 = snd (run p cs1 s)"
    and "\<forall>c \<in> set cs2. \<not> arms ident c" and "s2 = snd (run p cs2 s1)"
  shows "find_pos ident s1 = int n \<and> sched_count s1 = sched_count s
       \<and> active (schedlist s1 ! n) = 0
       \<and> event_ct_up (schedlist s1 ! n) = 0 \<and> event_ct_down (schedlist s1 ! n) = 0
       \<and> sched_pin_event_count u ident dir 0 s1 = (0, s1)
       \<and> sched_pin_level ident level s1 = (0, s1)
       \<and> sched_check p t dr ident s2 = (0, s2)"
proof -
  obtain c cs where cs1: "cs1 = c # cs" using assms(3) by (cases cs1) auto
  have "cancels ident c" using assms(4) cs1 by simp
  then obtain t' dr' where c: "c = Cancel t' dr' ident" using cancels_form by blast
  have "cancelled p ident n (sched_count s) (snd (exec p c s))"
    unfolding c using cancel_registered(1)[OF assms(1,2)] by simp
  then have "cancelled p ident n (sched_count s) (snd (run p cs (snd (exec p c s))))"
    using run_cancels assms(4) cs1 by simp
  then have k: "cancelled p ident n (sched_count s) s1" unfolding assms(5) cs1 by simp
  then have f1: "find_pos ident s1 = int n" by (simp add: cancelled_def)
  have "idle ident s2"
    unfolding assms(7) using run_idle[OF _ cancelled_idle[OF k] assms(6)] k
    by (simp add: cancelled_def)
  then have "sched_check p t dr ident s2 = (0, s2)" by (rule idle_check)
  then show ?thesis
    using k cancelled_level[OF k] event_count_read[OF f1, of u dir]
    by (simp add: cancelled_def)
qed

theorem cancel_deactivates_and_resets_witness:
  "find_pos 6 (snd (run Arduino scen_cancels scen_rose)) = 0
   \<and> sched_count (snd (run Arduino scen_cancels scen_rose)) = sched_count scen_rose
   \<and> active (schedlist (snd (run Arduino scen_cancels scen_rose)) ! 0) = 0
   \<and> event_ct_up (schedlist (snd (run Arduino scen_cancels scen_rose)) ! 0) = 0
   \<and> event_ct_down (schedlist (snd (run Arduino scen_cancels scen_rose)) ! 0) = 0
   \<and> fst (sched_pin_event_count 0 6 1 0 (snd (run Arduino scen_cancels scen_rose))) = 0
   \<and> fst (sched_pin_level 6 0 (snd (run Arduino scen_cancels scen_rose))) = 0
   \<and> fst (sched_check Arduino 7 (pin_reads True) 6
        (snd (run Arduino scen_later (snd (run Arduino scen_cancels scen_rose))))) = 0"
proof -
  have f: "find_pos 6 scen_rose = int 0" by code_simp
  have ne: "scen_cancels \<noteq> []" by (simp add: scen_cancels_def)
  have c: "\<forall>c \<in> set scen_cancels. cancels 6 c" by code_simp
  have a: "\<forall>c \<in> set scen_later. \<not> arms 6 c" by code_simp
  show ?thesis
    using cancel_deactivates_and_resets[where u = 0 and dir = 1 and level = 0 and t = 7
        and dr = "pin_reads True", OF wf_scen_rose f ne c refl a refl]
    by simp
qed

text \<open>
  C2 as stated fails: with the rising edge of pin 6 confirmed, the rising counter reads 1
  and the level reads HIGH; after \<^verbatim>\<open>sched_cancel(6)\<close>, with the pin still HIGH, the
  counter reads 0 and the level reads 0.
\<close>

theorem cancel_keeps_counters_counterexample:
  "fst (sched_pin_event_count 0 6 1 0 scen_rose) = 1
   \<and> fst (sched_pin_level 6 0 scen_rose) = 1
   \<and> fst (sched_cancel Arduino 2 (pin_reads True) 6 scen_rose) = 1
   \<and> fst (sched_pin_event_count 0 6 1 0 (snd (sched_cancel Arduino 2 (pin_reads True) 6 scen_rose)))
       = 0
   \<and> fst (sched_pin_level 6 0 (snd (sched_cancel Arduino 2 (pin_reads True) 6 scen_rose))) = 0"
  by code_simp

text \<open>
  C6, as the code has it. \<^verbatim>\<open>sched_check\<close> answers 0 and changes nothing for an
  identifier that is not registered. For a registered one it answers 1 exactly when the
  entry is active and its due time is at most the tick counter, and changes nothing when
  it answers 0. When it answers 1 for a non-recurring entry, the entry is deactivated and
  every later poll answers 0, whatever calls and interrupts come in between, until a
  \<^verbatim>\<open>sched_event\<close> arms the identifier again; for a recurring entry it stays active and
  its due time advances by one period. For a manual timer (an identifier that is not a
  pin, and not negative) armed recurring with period 1000 at tick \<open>t0\<close>, with the tick
  counter not wrapping during the run, one interrupt and one poll per tick for 3500
  ticks give the answer 1 at the ticks \<open>t0 + 1000\<close>, \<open>t0 + 2000\<close> and \<open>t0 + 3000\<close> and
  0 at all others.
\<close>

theorem poll_once_per_expiry:
  assumes "wf_state p s"
  shows "(find_pos ident s < 0 \<longrightarrow> sched_check p t dr ident s = (0, s))
       \<and> (find_pos ident s = int n \<longrightarrow>
            fst (sched_check p t dr ident s)
              = (if active (schedlist s ! n) \<noteq> 0 \<and> schedtime (schedlist s ! n) \<le> t
                 then 1 else 0)
          \<and> (fst (sched_check p t dr ident s) = 0 \<longrightarrow> snd (sched_check p t dr ident s) = s)
          \<and> (fst (sched_check p t dr ident s) = 1 \<and> recurring (schedlist s ! n) = 0
               \<and> (\<forall>c \<in> set cs. \<not> arms ident c) \<longrightarrow>
               sched_check p t' dr' ident (snd (run p cs (snd (sched_check p t dr ident s))))
                 = (0, snd (run p cs (snd (sched_check p t dr ident s)))))
          \<and> (fst (sched_check p t dr ident s) = 1 \<and> recurring (schedlist s ! n) \<noteq> 0 \<longrightarrow>
               active (schedlist (snd (sched_check p t dr ident s)) ! n) \<noteq> 0
               \<and> schedtime (schedlist (snd (sched_check p t dr ident s)) ! n)
                   = schedtime (schedlist s ! n) + schedms (schedlist s ! n)
                       + (if schedms (schedlist s ! n) = 0 then 1 else 0)))
       \<and> (\<not> is_pin p ident \<and> 0 \<le> sint ident \<and> recur \<noteq> 0
            \<and> fst (sched_event p t0 dr0 ident recur 1000 s) = 1 \<and> unat t0 + 4500 < 2 ^ 32 \<longrightarrow>
            fst (poll_run p dr ident (map (\<lambda>k. t0 + of_nat k) [1..<3501])
                   (snd (sched_event p t0 dr0 ident recur 1000 s)))
              = map (\<lambda>k. if k = 1000 \<or> k = 2000 \<or> k = 3000 then 1 else 0) [1..<3501])"
proof (intro conjI impI)
  assume "find_pos ident s < 0"
  then show "sched_check p t dr ident s = (0, s)" by (simp add: sched_check_def)
next
  assume f: "find_pos ident s = int n"
  show "fst (sched_check p t dr ident s)
          = (if active (schedlist s ! n) \<noteq> 0 \<and> schedtime (schedlist s ! n) \<le> t then 1 else 0)"
    unfolding poll_known[OF assms f] by simp
next
  assume f: "find_pos ident s = int n" and "fst (sched_check p t dr ident s) = 0"
  then show "snd (sched_check p t dr ident s) = s" by (rule poll_not_due[OF assms])
next
  assume f: "find_pos ident s = int n"
    and h: "fst (sched_check p t dr ident s) = 1 \<and> recurring (schedlist s ! n) = 0
               \<and> (\<forall>c \<in> set cs. \<not> arms ident c)"
  show "sched_check p t' dr' ident (snd (run p cs (snd (sched_check p t dr ident s))))
          = (0, snd (run p cs (snd (sched_check p t dr ident s))))"
    using h by (intro one_shot_then_idle[OF assms f]) simp_all
next
  assume f: "find_pos ident s = int n"
    and h: "fst (sched_check p t dr ident s) = 1 \<and> recurring (schedlist s ! n) \<noteq> 0"
  note r = poll_fired[OF assms f conjunct1[OF h]]
  show "active (schedlist (snd (sched_check p t dr ident s)) ! n) \<noteq> 0"
    unfolding r(1) using h r(4) by (simp add: expire_entry_active)
  show "schedtime (schedlist (snd (sched_check p t dr ident s)) ! n)
          = schedtime (schedlist s ! n) + schedms (schedlist s ! n)
              + (if schedms (schedlist s ! n) = 0 then 1 else 0)"
    unfolding r(1) using h by (simp add: expire_entry_schedtime)
next
  assume h: "\<not> is_pin p ident \<and> 0 \<le> sint ident \<and> recur \<noteq> 0
            \<and> fst (sched_event p t0 dr0 ident recur 1000 s) = 1 \<and> unat t0 + 4500 < 2 ^ 32"
  show "fst (poll_run p dr ident (map (\<lambda>k. t0 + of_nat k) [1..<3501])
                   (snd (sched_event p t0 dr0 ident recur 1000 s)))
              = map (\<lambda>k. if k = 1000 \<or> k = 2000 \<or> k = 3000 then 1 else 0) [1..<3501]"
    using h by (intro cadence_after_arm[OF assms]) blast+
qed

theorem poll_once_per_expiry_witness:
  "sched_check ATtinyX5 5 (pin_reads False) 7 tiny_init = (0, tiny_init)
   \<and> fst (sched_check ATtinyX5 999 (pin_reads False) 7 tiny_timer) = 0
   \<and> snd (sched_check ATtinyX5 999 (pin_reads False) 7 tiny_timer) = tiny_timer
   \<and> fst (sched_check ATtinyX5 1000 (pin_reads False) 7 tiny_timer) = 1
   \<and> schedtime (schedlist (snd (sched_check ATtinyX5 1000 (pin_reads False) 7 tiny_timer)) ! 0)
       = 2000
   \<and> fst (sched_check ATtinyX5 1000 (pin_reads False) 20 tiny_once) = 1
   \<and> fst (sched_check ATtinyX5 5000 (pin_reads False) 20
        (snd (run ATtinyX5 sparse_polls
           (snd (sched_check ATtinyX5 1000 (pin_reads False) 20 tiny_once))))) = 0
   \<and> fst (poll_run ATtinyX5 (pin_reads False) 7 (map (\<lambda>k. 0 + of_nat k) [1..<3501]) tiny_timer)
       = map (\<lambda>k. if k = 1000 \<or> k = 2000 \<or> k = 3000 then 1 else 0) [1..<3501]"
proof -
  have u: "find_pos 7 tiny_init < 0" by code_simp
  have k: "find_pos 7 tiny_timer = int 0" by code_simp
  have e: "active (schedlist tiny_timer ! 0) = 1" "schedtime (schedlist tiny_timer ! 0) = 1000"
    "schedms (schedlist tiny_timer ! 0) = 1000" "recurring (schedlist tiny_timer ! 0) = 1"
    by code_simp+
  have o: "find_pos 20 tiny_once = int 0" by code_simp
  have oe: "active (schedlist tiny_once ! 0) = 1" "schedtime (schedlist tiny_once ! 0) = 1000"
    "recurring (schedlist tiny_once ! 0) = 0"
    by code_simp+
  have q: "\<forall>c \<in> set sparse_polls. \<not> arms 20 c" by code_simp
  have m1: "\<not> is_pin ATtinyX5 7" by code_simp
  have m2: "fst (sched_event ATtinyX5 0 (pin_reads False) 7 1 1000 tiny_init) = 1" by code_simp
  have m: "\<not> is_pin ATtinyX5 7 \<and> 0 \<le> sint (7 :: 8 word) \<and> (1 :: 8 word) \<noteq> 0
            \<and> fst (sched_event ATtinyX5 0 (pin_reads False) 7 1 1000 tiny_init) = 1
            \<and> unat (0 :: 32 word) + 4500 < 2 ^ 32"
    using m1 m2 by simp
  note a = poll_once_per_expiry[OF wf_tiny(1), where ident = 7 and t = 5
      and dr = "pin_reads False" and recur = 1 and ?t0.0 = 0 and ?dr0.0 = "pin_reads False"]
  note a1 = a[THEN conjunct1] and a3 = a[THEN conjunct2, THEN conjunct2]
  note b = poll_once_per_expiry[OF wf_tiny(2), where ident = 7 and n = 0 and t = 999
      and dr = "pin_reads False", THEN conjunct2, THEN conjunct1]
  note c = poll_once_per_expiry[OF wf_tiny(2), where ident = 7 and n = 0 and t = 1000
      and dr = "pin_reads False", THEN conjunct2, THEN conjunct1]
  note d = poll_once_per_expiry[OF wf_tiny(3), where ident = 20 and n = 0 and t = 1000
      and dr = "pin_reads False" and cs = sparse_polls and t' = 5000 and dr' = "pin_reads False",
      THEN conjunct2, THEN conjunct1]
  have 1: "sched_check ATtinyX5 5 (pin_reads False) 7 tiny_init = (0, tiny_init)"
    using a1 u by blast
  have 2: "fst (sched_check ATtinyX5 999 (pin_reads False) 7 tiny_timer) = 0"
    using b k e by simp
  have 3: "snd (sched_check ATtinyX5 999 (pin_reads False) 7 tiny_timer) = tiny_timer"
    using b k 2 by blast
  have 4: "fst (sched_check ATtinyX5 1000 (pin_reads False) 7 tiny_timer) = 1"
    using c k e by simp
  have 5: "schedtime (schedlist (snd (sched_check ATtinyX5 1000 (pin_reads False) 7 tiny_timer)) ! 0)
       = 2000"
    using c k 4 e by simp
  have 6: "fst (sched_check ATtinyX5 1000 (pin_reads False) 20 tiny_once) = 1"
    using d o oe by simp
  have 7: "fst (sched_check ATtinyX5 5000 (pin_reads False) 20
        (snd (run ATtinyX5 sparse_polls
           (snd (sched_check ATtinyX5 1000 (pin_reads False) 20 tiny_once))))) = 0"
    using d o 6 oe(3) q by simp
  have 8: "fst (poll_run ATtinyX5 (pin_reads False) 7 (map (\<lambda>k. 0 + of_nat k) [1..<3501])
             tiny_timer)
       = map (\<lambda>k. if k = 1000 \<or> k = 2000 \<or> k = 3000 then 1 else 0) [1..<3501]"
    unfolding tiny_timer_def using a3 m by blast
  show ?thesis using 1 2 3 4 5 6 7 8 by (intro conjI)
qed

text \<open>
  C6 as stated fails. On the Arduino target 7 is a pin (\<^verbatim>\<open>MAX_DIGITAL_PIN\<close> is 13):
  the interrupt checks the entry at every tick and takes each expiry, so that with one
  poll per tick after \<^verbatim>\<open>sched_event(7, 1, 1000)\<close> all 3500 polls answer 0. On the
  ATtiny85 target, where 7 is a manual timer, polls every 667 ticks answer 1 at the ticks
  1334, 2001 and 3335: three true answers, the first two only 667 ticks apart.
\<close>

theorem poll_cadence_counterexample:
  "is_pin Arduino 7
   \<and> fst (poll_run Arduino (pin_reads False) 7 (map of_nat [1..<3501]) scen_pin7)
       = replicate 3500 0
   \<and> \<not> is_pin ATtinyX5 7
   \<and> fst (run ATtinyX5 sparse_polls tiny_timer) = [Ret8 0, Ret8 1, Ret8 1, Ret8 0, Ret8 1]"
proof -
  have p: "is_pin Arduino 7" by code_simp
  have w: "wf_state Arduino scen_pin7" by code_simp
  have f: "find_pos 7 scen_pin7 = int 0" by code_simp
  have e: "active (schedlist scen_pin7 ! 0) = 1" "recurring (schedlist scen_pin7 ! 0) = 1"
    "schedms (schedlist scen_pin7 ! 0) = 1000" "schedtime (schedlist scen_pin7 ! 0) = 1000"
    by code_simp+
  have td: "timer_due Arduino 7 0 1000 scen_pin7"
    unfolding timer_due_def using w f e by simp
  have i: "sched_initialized scen_pin7 \<noteq> 0" by code_simp
  have "fst (poll_run Arduino (pin_reads False) 7 (map of_nat [1..<1 + 3500]) scen_pin7)
          = replicate 3500 0"
    by (rule starved_pin[OF p td i]) simp_all
  moreover have "(1 :: nat) + 3500 = 3501" by simp
  ultimately have s: "fst (poll_run Arduino (pin_reads False) 7 (map of_nat [1..<3501]) scen_pin7)
          = replicate 3500 0"
    by (simp only:)
  have m: "\<not> is_pin ATtinyX5 7" by code_simp
  have r: "fst (run ATtinyX5 sparse_polls tiny_timer) = [Ret8 0, Ret8 1, Ret8 1, Ret8 0, Ret8 1]"
    by code_simp
  show ?thesis using p s m r by (intro conjI)
qed

end
